theory Spec2Isabelle
  imports Complex_Main "HOL-Library.Word"
begin

section \<open>Errors\<close>

text \<open>
  The exceptions of the code, under the names of the error taxonomy:
  \<^item> \<open>InvalidTopology\<close>: the \<open>std::invalid_argument\<close> of \<open>sign_matrix\<close> (tree not rooted,
    tree not bifurcating) and the \<open>std::runtime_error\<close> of the subtree queries (link or node
    does not belong to the tree);
  \<^item> \<open>InvalidArgument\<close>: the \<open>std::runtime_error\<close> of \<open>epca_splitify_transform\<close>
    (negative kappa);
  \<^item> \<open>FormatError\<close>, \<open>VersionError\<close>, \<open>TruncatedInputError\<close>: the three
    \<open>std::invalid_argument\<close> of \<open>SampleSerializer::load\<close> (wrong file format, wrong
    serialization version, file longer than expected);
  \<^item> \<open>OutOfRange\<close>: an element lookup by an index beyond the table;
  \<^item> \<open>ReadError\<close>: a read of the deserializer beyond the end of its input;
  \<^item> \<open>NewickError\<close>: a failure of the Newick reader.
\<close>

datatype error =
    OutOfRange
  | InvalidTopology
  | InvalidArgument
  | FormatError
  | VersionError
  | TruncatedInputError
  | ReadError
  | NewickError

section \<open>The topology store\<close>

text \<open>
  Links, nodes and edges live in three dense tables of the tree and refer to each other by
  index into these tables. A link knows the next link around its node, the link at the other
  end of its edge, its node and its edge. A node knows its primary link (the one towards the
  root), an edge its primary (root side) and secondary link. The index of an element is its
  position in the table.
\<close>

record TreeLink =
  link_next :: nat
  link_outer :: nat
  link_node :: nat
  link_edge :: nat

record TreeNode =
  node_link :: nat

record TreeEdge =
  edge_link_p :: nat
  edge_link_s :: nat

record Tree =
  links :: "TreeLink list"
  nodes :: "TreeNode list"
  edges :: "TreeEdge list"
  root_link :: nat
  tree_id :: nat

definition link_count :: "Tree \<Rightarrow> nat" where
  "link_count t = length (links t)"

definition node_count :: "Tree \<Rightarrow> nat" where
  "node_count t = length (nodes t)"

definition edge_count :: "Tree \<Rightarrow> nat" where
  "edge_count t = length (edges t)"

text \<open>The accessors \<open>next()\<close>, \<open>outer()\<close>, \<open>node()\<close>, \<open>edge()\<close> of a link of the tree.\<close>

definition nxt :: "Tree \<Rightarrow> nat \<Rightarrow> nat" where
  "nxt t l = link_next (links t ! l)"

definition outr :: "Tree \<Rightarrow> nat \<Rightarrow> nat" where
  "outr t l = link_outer (links t ! l)"

definition nod :: "Tree \<Rightarrow> nat \<Rightarrow> nat" where
  "nod t l = link_node (links t ! l)"

definition edg :: "Tree \<Rightarrow> nat \<Rightarrow> nat" where
  "edg t l = link_edge (links t ! l)"

text \<open>\<open>node.link()\<close> and \<open>node.primary_link()\<close>: the link of a node towards the root.\<close>

definition primary_link :: "Tree \<Rightarrow> nat \<Rightarrow> nat" where
  "primary_link t n = node_link (nodes t ! n)"

text \<open>\<open>edge.primary_link()\<close> and \<open>edge.secondary_link()\<close>.\<close>

definition edge_primary_link :: "Tree \<Rightarrow> nat \<Rightarrow> nat" where
  "edge_primary_link t e = edge_link_p (edges t ! e)"

definition edge_secondary_link :: "Tree \<Rightarrow> nat \<Rightarrow> nat" where
  "edge_secondary_link t e = edge_link_s (edges t ! e)"

text \<open>\<open>tree.root_node().index()\<close>: the node of the root link.\<close>

definition root_node :: "Tree \<Rightarrow> nat" where
  "root_node t = nod t (root_link t)"

text \<open>
  Modelled from the spec: \<open>Tree::empty()\<close> is declared with the tree class, which is not
  part of the sources. A tree is empty when it holds no links, no nodes and no edges.
\<close>

definition tree_empty :: "Tree \<Rightarrow> bool" where
  "tree_empty t = (links t = [] \<and> nodes t = [] \<and> edges t = [])"

text \<open>
  A reference to a link or a node, as the subtree queries receive it: the element is known
  by the tree that owns it and by its index there.
\<close>

record ElemRef =
  ref_owner :: nat
  ref_index :: nat

text \<open>
  Modelled from the spec: \<open>belongs_to( tree, link )\<close> and \<open>belongs_to( tree, node )\<close>, the
  membership check of the topology store, are not part of the sources. The element belongs
  to the tree when its index is within the table and the element stored there is the
  referenced one.
\<close>

definition belongs_to_link :: "Tree \<Rightarrow> ElemRef \<Rightarrow> bool" where
  "belongs_to_link t r = (ref_index r < link_count t \<and> ref_owner r = tree_id t)"

definition belongs_to_node :: "Tree \<Rightarrow> ElemRef \<Rightarrow> bool" where
  "belongs_to_node t r = (ref_index r < node_count t \<and> ref_owner r = tree_id t)"

section \<open>Node properties\<close>

definition is_leaf_link :: "Tree \<Rightarrow> nat \<Rightarrow> bool" where
  "is_leaf_link t l = (nxt t l = l)"

definition is_leaf :: "Tree \<Rightarrow> nat \<Rightarrow> bool" where
  "is_leaf t n = is_leaf_link t (primary_link t n)"

definition is_inner_link :: "Tree \<Rightarrow> nat \<Rightarrow> bool" where
  "is_inner_link t l = (nxt t l \<noteq> l)"

definition is_inner :: "Tree \<Rightarrow> nat \<Rightarrow> bool" where
  "is_inner t n = is_inner_link t (primary_link t n)"

definition is_root :: "Tree \<Rightarrow> nat \<Rightarrow> bool" where
  "is_root t n = (edge_primary_link t (edg t (primary_link t n)) = primary_link t n)"

text \<open>
  \<open>degree( node )\<close>: the do-while loop that counts the links around the node. The loop
  does not return when following \<open>next\<close> never comes back to the start; this is the value
  \<open>None\<close>.
\<close>

partial_function (option) degree_loop :: "Tree \<Rightarrow> nat \<Rightarrow> nat \<Rightarrow> nat \<Rightarrow> nat option" where
  "degree_loop t start lnk dgr =
     (if nxt t lnk \<noteq> start then degree_loop t start (nxt t lnk) (dgr + 1)
      else Some (dgr + 1))"

declare degree_loop.simps [code]

definition degree :: "Tree \<Rightarrow> nat \<Rightarrow> nat option" where
  "degree t n = degree_loop t (primary_link t n) (primary_link t n) 0"

section \<open>Node count properties\<close>

text \<open>
  \<open>is_bifurcating( tree, loose )\<close>: the loop over the node indices, which returns at the
  first node of degree above 3, or of degree 2 when it is not the root and \<open>loose\<close> is not
  set.
\<close>

fun is_bifurcating_loop :: "Tree \<Rightarrow> bool \<Rightarrow> nat list \<Rightarrow> bool option" where
  "is_bifurcating_loop t loose [] = Some True"
| "is_bifurcating_loop t loose (i # is) =
     (case degree t i of
        None \<Rightarrow> None
      | Some deg \<Rightarrow>
          if deg > 3 then Some False
          else if deg = 2 \<and> \<not> (i = root_node t) \<and> \<not> loose then Some False
          else is_bifurcating_loop t loose is)"

definition is_bifurcating :: "Tree \<Rightarrow> bool \<Rightarrow> bool option" where
  "is_bifurcating t loose = is_bifurcating_loop t loose [0..<node_count t]"

definition is_rooted :: "Tree \<Rightarrow> bool option" where
  "is_rooted t = map_option (\<lambda>d. d = 2) (degree t (root_node t))"

definition inner_node_indices :: "Tree \<Rightarrow> nat list" where
  "inner_node_indices t = filter (is_inner t) [0..<node_count t]"

definition leaf_node_indices :: "Tree \<Rightarrow> nat list" where
  "leaf_node_indices t = filter (is_leaf t) [0..<node_count t]"

section \<open>Matrices\<close>

text \<open>
  \<open>utils::Matrix\<close>: the number of rows and columns and the entries in row-major order.
  \<open>mat_get\<close> and \<open>mat_set\<close> are reading and writing \<open>mat( r, c )\<close>.
\<close>

record 'a Matrix =
  mat_rows :: nat
  mat_cols :: nat
  mat_data :: "'a list"

definition mat_empty :: "'a Matrix" where
  "mat_empty = \<lparr>mat_rows = 0, mat_cols = 0, mat_data = []\<rparr>"

definition mat_init :: "nat \<Rightarrow> nat \<Rightarrow> 'a \<Rightarrow> 'a Matrix" where
  "mat_init r c v = \<lparr>mat_rows = r, mat_cols = c, mat_data = replicate (r * c) v\<rparr>"

definition mat_get :: "'a Matrix \<Rightarrow> nat \<Rightarrow> nat \<Rightarrow> 'a" where
  "mat_get m r c = mat_data m ! (r * mat_cols m + c)"

definition mat_set :: "'a Matrix \<Rightarrow> nat \<Rightarrow> nat \<Rightarrow> 'a \<Rightarrow> 'a Matrix" where
  "mat_set m r c v = m\<lparr>mat_data := (mat_data m)[r * mat_cols m + c := v]\<rparr>"

section \<open>Preorder traversal of a subtree\<close>

text \<open>
  The links that follow a link around its node, up to the link itself: the loop
  \<open>c = &link->next(); while( c != link ) { ...; c = &c->next(); }\<close>.
\<close>

partial_function (option) ring_loop :: "Tree \<Rightarrow> nat \<Rightarrow> nat \<Rightarrow> nat list \<Rightarrow> nat list option" where
  "ring_loop t start c acc =
     (if c \<noteq> start then ring_loop t start (nxt t c) (acc @ [c]) else Some acc)"

declare ring_loop.simps [code]

definition ring_rest :: "Tree \<Rightarrow> nat \<Rightarrow> nat list option" where
  "ring_rest t l = ring_loop t l (nxt t l) []"

text \<open>
  Modelled from the spec: the preorder iterator over a \<open>Subtree\<close> is not part of the
  sources. The subtree of a link is the node of the link with everything behind it, away
  from the link's outer side. The traversal visits a node before its children and yields
  each node of the subtree once: it keeps a stack of links to visit, takes the first, yields
  its node, and puts the outer links of the other links of that node, in their order around
  the node, in front of the stack. The result is the list of the visited nodes.
\<close>

partial_function (option) preorder_loop :: "Tree \<Rightarrow> nat list \<Rightarrow> nat list \<Rightarrow> nat list option" where
  "preorder_loop t stack acc =
     (case stack of
        [] \<Rightarrow> Some acc
      | l # rest \<Rightarrow>
          (case ring_rest t l of
             None \<Rightarrow> None
           | Some cs \<Rightarrow> preorder_loop t (map (outr t) cs @ rest) (acc @ [nod t l])))"

declare preorder_loop.simps [code]

definition preorder_subtree :: "Tree \<Rightarrow> nat \<Rightarrow> nat list option" where
  "preorder_subtree t l = preorder_loop t [l] []"

section \<open>Sign matrix\<close>

text \<open>
  \<open>fill_subtree_indices\<close>: every column of a node of the subtree gets the sign, in the
  given row.
\<close>

definition fill_subtree_indices ::
  "Tree \<Rightarrow> nat \<Rightarrow> nat \<Rightarrow> int \<Rightarrow> int Matrix \<Rightarrow> int Matrix option" where
  "fill_subtree_indices t row_idx st sign result =
     map_option (\<lambda>ns. fold (\<lambda>n m. mat_set m row_idx n sign) ns result) (preorder_subtree t st)"

text \<open>One iteration of the loop over the rows.\<close>

definition sign_matrix_row :: "Tree \<Rightarrow> nat \<Rightarrow> int Matrix \<Rightarrow> int Matrix option" where
  "sign_matrix_row t i result =
     (if i = root_node t then
        Option.bind (fill_subtree_indices t i (outr t (primary_link t i)) 1 result)
          (fill_subtree_indices t i (outr t (nxt t (primary_link t i))) (- 1))
      else if is_inner t i then
        Option.bind (fill_subtree_indices t i (outr t (nxt t (primary_link t i))) 1 result)
          (fill_subtree_indices t i (outr t (nxt t (nxt t (primary_link t i)))) (- 1))
      else Some result)"

fun sign_matrix_rows :: "Tree \<Rightarrow> nat list \<Rightarrow> int Matrix \<Rightarrow> int Matrix option" where
  "sign_matrix_rows t [] result = Some result"
| "sign_matrix_rows t (i # is) result =
     Option.bind (sign_matrix_row t i result) (sign_matrix_rows t is)"

text \<open>
  The compressed form: a row for each inner node and a column for each leaf node, filled
  from the full matrix.
\<close>

definition sign_matrix_compress :: "Tree \<Rightarrow> int Matrix \<Rightarrow> int Matrix" where
  "sign_matrix_compress t result =
     (let in_node_idcs = inner_node_indices t;
          lf_node_idcs = leaf_node_indices t
      in fold (\<lambda>r m. fold (\<lambda>c m'. mat_set m' r c (mat_get result (in_node_idcs ! r) (lf_node_idcs ! c)))
                 [0..<length lf_node_idcs] m)
           [0..<length in_node_idcs]
           (mat_init (length in_node_idcs) (length lf_node_idcs) 0))"

text \<open>
  \<open>sign_matrix( tree, compressed )\<close>. The result is \<open>None\<close> when the code does not
  return, \<open>Some (Inl e)\<close> when it throws and \<open>Some (Inr m)\<close> when it returns the matrix.
\<close>

definition sign_matrix :: "Tree \<Rightarrow> bool \<Rightarrow> (error + int Matrix) option" where
  "sign_matrix t compressed =
     (if tree_empty t then Some (Inr mat_empty)
      else
        (case is_rooted t of
           None \<Rightarrow> None
         | Some False \<Rightarrow> Some (Inl InvalidTopology)
         | Some True \<Rightarrow>
             (case is_bifurcating t False of
                None \<Rightarrow> None
              | Some False \<Rightarrow> Some (Inl InvalidTopology)
              | Some True \<Rightarrow>
                  (case sign_matrix_rows t [0..<node_count t]
                          (mat_init (node_count t) (node_count t) 0) of
                     None \<Rightarrow> None
                   | Some result \<Rightarrow>
                       Some (Inr (if compressed then sign_matrix_compress t result
                                  else result))))))"

section \<open>Subtrees\<close>

text \<open>
  \<open>subtree_size( tree, link )\<close>: the walk \<open>cur_link = &cur_link->next().outer()\<close> from the
  outer link of the given link until it reaches the given link, collecting the visited nodes
  in a set. The walk does not return when it never reaches the given link.
\<close>

partial_function (option) subtree_size_loop ::
  "Tree \<Rightarrow> nat \<Rightarrow> nat \<Rightarrow> nat set \<Rightarrow> nat set option" where
  "subtree_size_loop t lnk cur visited_nodes =
     (if cur \<noteq> lnk
      then subtree_size_loop t lnk (outr t (nxt t cur)) (insert (nod t cur) visited_nodes)
      else Some visited_nodes)"

declare subtree_size_loop.simps [code]

definition subtree_size :: "Tree \<Rightarrow> ElemRef \<Rightarrow> (error + nat) option" where
  "subtree_size t r =
     (if \<not> belongs_to_link t r then Some (Inl InvalidTopology)
      else map_option (\<lambda>visited_nodes. Inr (card visited_nodes))
             (subtree_size_loop t (ref_index r) (outr t (ref_index r)) {}))"

text \<open>
  Modelled from the spec: the Euler tour iterator is not part of the sources. Started at a
  node, it yields the primary link of the node and then moves by
  \<open>link = &link->outer().next()\<close> until it is back at the start.
\<close>

partial_function (option) eulertour_loop ::
  "Tree \<Rightarrow> nat \<Rightarrow> nat \<Rightarrow> nat list \<Rightarrow> nat list option" where
  "eulertour_loop t start lnk acc =
     (if nxt t (outr t lnk) \<noteq> start
      then eulertour_loop t start (nxt t (outr t lnk)) (acc @ [lnk])
      else Some (acc @ [lnk]))"

declare eulertour_loop.simps [code]

definition eulertour :: "Tree \<Rightarrow> nat \<Rightarrow> nat list option" where
  "eulertour t n = eulertour_loop t (primary_link t n) (primary_link t n) []"

text \<open>
  The body of the loop of \<open>subtree_sizes( tree, node )\<close> over the Euler tour. The state is
  the result vector and the stack of entry links; \<open>start\<close> is the primary link of the
  starting node and \<open>it\<close> the link of the current iteration. The two \<open>assert\<close>
  statements after the loop are checks of the debug build; they throw no exception and are
  not part of the function below.
\<close>

definition subtree_sizes_step ::
  "Tree \<Rightarrow> nat \<Rightarrow> nat \<Rightarrow> nat list \<times> nat list \<Rightarrow> nat list \<times> nat list" where
  "subtree_sizes_step t start it st =
     (let result = fst st; stack = snd st in
      if nxt t it = last stack \<and> last stack \<noteq> start then
        (let st_size = result ! nod t (last stack);
             stack' = butlast stack
         in (result[nod t (last stack') := result ! nod t (last stack') + st_size], stack'))
      else if nod t it = nod t (last stack) then (result, stack)
      else if is_leaf_link t it then
        (result[nod t (last stack) := result ! nod t (last stack) + 1], stack)
      else
        (result[nod t (last stack) := result ! nod t (last stack) + 1], stack @ [it]))"

definition subtree_sizes :: "Tree \<Rightarrow> ElemRef \<Rightarrow> (error + nat list) option" where
  "subtree_sizes t r =
     (if \<not> belongs_to_node t r then Some (Inl InvalidTopology)
      else map_option
             (\<lambda>tour. Inr (fst (fold (subtree_sizes_step t (primary_link t (ref_index r))) tour
                                  (replicate (node_count t) 0, [primary_link t (ref_index r)]))))
             (eulertour t (ref_index r)))"

text \<open>
  \<open>subtree_max_path_height( tree, link )\<close>. The function \<open>node_path_length_vector\<close> that it
  calls is not part of the sources and is a parameter here: \<open>npl t r\<close> is the outcome of
  \<open>node_path_length_vector( tree, node )\<close> for the referenced node.
\<close>

partial_function (option) subtree_max_path_height_loop ::
  "Tree \<Rightarrow> nat list \<Rightarrow> nat \<Rightarrow> nat \<Rightarrow> nat \<Rightarrow> nat option" where
  "subtree_max_path_height_loop t dists lnk cur mx =
     (if cur \<noteq> lnk
      then subtree_max_path_height_loop t dists lnk (outr t (nxt t cur))
             (max mx (dists ! nod t cur))
      else Some mx)"

declare subtree_max_path_height_loop.simps [code]

definition subtree_max_path_height ::
  "(Tree \<Rightarrow> ElemRef \<Rightarrow> (error + nat list) option) \<Rightarrow> Tree \<Rightarrow> ElemRef
     \<Rightarrow> (error + nat) option" where
  "subtree_max_path_height npl t r =
     (if \<not> belongs_to_link t r then Some (Inl InvalidTopology)
      else
        (case npl t \<lparr>ref_owner = tree_id t, ref_index = nod t (outr t (ref_index r))\<rparr> of
           None \<Rightarrow> None
         | Some (Inl e) \<Rightarrow> Some (Inl e)
         | Some (Inr dists) \<Rightarrow>
             map_option Inr
               (subtree_max_path_height_loop t dists (ref_index r) (outr t (ref_index r)) 0)))"

text \<open>
  The loop \<open>max = std::max( max, 1 + f( &cl->outer() ))\<close> over a list of links, where the
  call \<open>f\<close> also updates the result vector.
\<close>

fun height_loop ::
  "(nat \<Rightarrow> nat list \<Rightarrow> (nat \<times> nat list) option) \<Rightarrow> nat list \<Rightarrow> nat \<Rightarrow> nat list
     \<Rightarrow> (nat \<times> nat list) option" where
  "height_loop f [] mx result = Some (mx, result)"
| "height_loop f (cl # cls) mx result =
     (case f cl result of
        None \<Rightarrow> None
      | Some (h, result') \<Rightarrow> height_loop f cls (max mx (1 + h)) result')"

text \<open>
  The recursive helper \<open>rec_subtree_height\<close> of \<open>subtree_max_path_heights\<close>. The first
  argument bounds the depth of the recursion; a recursion that returns never visits a link
  twice on the way down, so that the number of links of the tree is enough whenever it
  returns at all.
\<close>

fun rec_subtree_height ::
  "nat \<Rightarrow> Tree \<Rightarrow> nat \<Rightarrow> nat list \<Rightarrow> (nat \<times> nat list) option" where
  "rec_subtree_height 0 t l result = None"
| "rec_subtree_height (Suc k) t l result =
     (case ring_rest t l of
        None \<Rightarrow> None
      | Some cs \<Rightarrow>
          (case height_loop (\<lambda>cl. rec_subtree_height k t (outr t cl)) cs 0 result of
             None \<Rightarrow> None
           | Some (link_max, result') \<Rightarrow> Some (link_max, result'[nod t l := link_max])))"

definition subtree_max_path_heights :: "Tree \<Rightarrow> ElemRef \<Rightarrow> (error + nat list) option" where
  "subtree_max_path_heights t r =
     (if \<not> belongs_to_node t r then Some (Inl InvalidTopology)
      else
        (case ring_rest t (primary_link t (ref_index r)) of
           None \<Rightarrow> None
         | Some cs \<Rightarrow>
             (case height_loop (\<lambda>cl. rec_subtree_height (link_count t) t (outr t cl))
                     (primary_link t (ref_index r) # cs) 0 (replicate (node_count t) 0) of
                None \<Rightarrow> None
              | Some (node_max, result) \<Rightarrow> Some (Inr (result[ref_index r := node_max])))))"

section \<open>Lowest common ancestor\<close>

text \<open>
  \<open>path_to_root( node )\<close>: the primary links from the node up to the root, the root's
  last. The loop runs while the current link is the secondary link of its edge.
\<close>

partial_function (option) path_to_root_loop ::
  "Tree \<Rightarrow> nat \<Rightarrow> nat list \<Rightarrow> nat list option" where
  "path_to_root_loop t cur_link path =
     (if edge_secondary_link t (edg t cur_link) = cur_link
      then path_to_root_loop t (primary_link t (nod t (outr t cur_link))) (path @ [cur_link])
      else Some (path @ [cur_link]))"

declare path_to_root_loop.simps [code]

definition path_to_root :: "Tree \<Rightarrow> nat \<Rightarrow> nat list option" where
  "path_to_root t n = path_to_root_loop t (primary_link t n) []"

text \<open>The loop that removes the common tail of the two paths.\<close>

function lca_trim :: "nat list \<Rightarrow> nat list \<Rightarrow> nat list \<times> nat list" where
  "lca_trim path_a path_b =
     (if length path_a > 1 \<and> length path_b > 1
         \<and> path_a ! (length path_a - 1) = path_b ! (length path_b - 1)
         \<and> path_a ! (length path_a - 2) = path_b ! (length path_b - 2)
      then lca_trim (butlast path_a) (butlast path_b)
      else (path_a, path_b))"
  by pat_completeness auto
termination
  by (relation "measure (\<lambda>(a, b). length a)") auto

declare lca_trim.simps [simp del]

definition lowest_common_ancestor :: "Tree \<Rightarrow> nat \<Rightarrow> nat \<Rightarrow> nat option" where
  "lowest_common_ancestor t node_a node_b =
     (if node_a = node_b then Some node_a
      else
        (case path_to_root t node_a of
           None \<Rightarrow> None
         | Some path_a \<Rightarrow>
             (case path_to_root t node_b of
                None \<Rightarrow> None
              | Some path_b \<Rightarrow> Some (nod t (last (fst (lca_trim path_a path_b)))))))"

text \<open>
  \<open>lowest_common_ancestors( tree )\<close>, the serial loops: for every row \<open>r\<close> and every
  column \<open>c\<close> from \<open>r\<close> on, the entries \<open>(r, c)\<close> and \<open>(c, r)\<close> get the index of the lowest
  common ancestor of the two nodes. (The variant for OpenMP runs over the same pairs by a
  linear index and sets the diagonal in a loop of its own.)
\<close>

fun lcas_cols :: "Tree \<Rightarrow> nat \<Rightarrow> nat list \<Rightarrow> nat Matrix \<Rightarrow> nat Matrix option" where
  "lcas_cols t r [] res = Some res"
| "lcas_cols t r (c # cs) res =
     (case lowest_common_ancestor t r c of
        None \<Rightarrow> None
      | Some lca \<Rightarrow> lcas_cols t r cs (mat_set (mat_set res r c lca) c r lca))"

fun lcas_rows :: "Tree \<Rightarrow> nat list \<Rightarrow> nat Matrix \<Rightarrow> nat Matrix option" where
  "lcas_rows t [] res = Some res"
| "lcas_rows t (r # rs) res =
     (case lcas_cols t r [r..<node_count t] res of
        None \<Rightarrow> None
      | Some res' \<Rightarrow> lcas_rows t rs res')"

definition lowest_common_ancestors :: "Tree \<Rightarrow> nat Matrix option" where
  "lowest_common_ancestors t =
     lcas_rows t [0..<node_count t] (mat_init (node_count t) (node_count t) 0)"

text \<open>
  The words of the specification of the sign matrix, for the comparison with the matrix
  that the code fills. The node above a node is the node at the other end of the edge of
  its primary link. A node \<open>c\<close> is in the subtree of a node \<open>a\<close> when the primary link of
  \<open>a\<close> is on the path from \<open>c\<close> to the root: \<open>c\<close> is \<open>a\<close> or one of its descendants.
\<close>

definition parent_node :: "Tree \<Rightarrow> nat \<Rightarrow> nat" where
  "parent_node t c = nod t (outr t (primary_link t c))"

definition in_subtree_of :: "Tree \<Rightarrow> nat \<Rightarrow> nat \<Rightarrow> bool" where
  "in_subtree_of t a c =
     (case path_to_root t c of
        None \<Rightarrow> False
      | Some path \<Rightarrow> primary_link t a \<in> set path)"

text \<open>
  The two links of an inner node of a rooted bifurcating tree that lead away from the root:
  both links of the root, and the two links after the primary link of another node. The
  children of the node are the nodes behind these links.
\<close>

definition child_links :: "Tree \<Rightarrow> nat \<Rightarrow> nat \<times> nat" where
  "child_links t r =
     (if r = root_node t then (primary_link t r, nxt t (primary_link t r))
      else (nxt t (primary_link t r), nxt t (nxt t (primary_link t r))))"

definition first_child :: "Tree \<Rightarrow> nat \<Rightarrow> nat" where
  "first_child t r = nod t (outr t (fst (child_links t r)))"

definition second_child :: "Tree \<Rightarrow> nat \<Rightarrow> nat" where
  "second_child t r = nod t (outr t (snd (child_links t r)))"

text \<open>
  The entry of the sign matrix as the specification words it: in the row of an inner node,
  the columns of the nodes in the subtree of one child are 1, those of the nodes in the
  subtree of the other child are -1, and every other entry of the matrix is 0.
\<close>

definition sign_entry :: "Tree \<Rightarrow> nat \<Rightarrow> nat \<Rightarrow> int" where
  "sign_entry t r c =
     (if is_inner t r then
        (if in_subtree_of t (first_child t r) c then 1
         else if in_subtree_of t (second_child t r) c then - 1
         else 0)
      else 0)"

section \<open>Edge PCA: the splitify transform\<close>








section \<open>Placements and the binary serialization of a sample\<close>

type_synonym byte = "8 word"

text \<open>
  A \<open>size_t\<close> is a word of 64 bits. The serializer copies the eight bytes of a \<open>double\<close>
  as they are, so that the numeric fields are kept here as their patterns of 64 bits.
\<close>

type_synonym u64 = "64 word"

text \<open>
  A placement refers to an edge and carries four numbers; a name carries a multiplicity; a
  Pquery holds its placements and its names in order; a sample owns a tree and its Pqueries.
\<close>

record PqueryPlacement =
  placement_edge :: ElemRef
  likelihood :: u64
  like_weight_ratio :: u64
  proximal_length :: u64
  pendant_length :: u64

record PqueryName =
  pname :: "byte list"
  multiplicity :: u64

record Pquery =
  placements :: "PqueryPlacement list"
  pnames :: "PqueryName list"

record Sample =
  sample_tree :: Tree
  pqueries :: "Pquery list"

text \<open>
  Modelled from the spec: \<open>total_placement_count\<close> is not part of the sources. It is the
  number of placements of all Pqueries of the sample.
\<close>

definition total_placement_count :: "Sample \<Rightarrow> nat" where
  "total_placement_count smp = sum_list (map (\<lambda>q. length (placements q)) (pqueries smp))"

text \<open>
  Modelled from the spec: the membership check for an edge and the lookup \<open>edge_at\<close> of the
  topology store are not part of the sources. The lookup fails with \<open>OutOfRange\<close> for an
  index that is not below the size of the table.
\<close>

definition belongs_to_edge :: "Tree \<Rightarrow> ElemRef \<Rightarrow> bool" where
  "belongs_to_edge t r = (ref_index r < edge_count t \<and> ref_owner r = tree_id t)"

definition edge_at :: "Tree \<Rightarrow> nat \<Rightarrow> error + ElemRef" where
  "edge_at t i =
     (if i < edge_count t then Inr \<lparr>ref_owner = tree_id t, ref_index = i\<rparr> else Inl OutOfRange)"

text \<open>Sequencing of steps that may fail: the first error ends the run.\<close>

definition rbind :: "error + 'a \<Rightarrow> ('a \<Rightarrow> error + 'b) \<Rightarrow> error + 'b" where
  "rbind m f = (case m of Inl e \<Rightarrow> Inl e | Inr x \<Rightarrow> f x)"

subsection \<open>Serializer and deserializer\<close>

text \<open>
  Modelled from the spec: \<open>utils::Serializer\<close> and \<open>utils::Deserializer\<close> are not part of
  the sources. Integers and floats are written with their fixed width, the least
  significant byte first; a string is written as its length, a \<open>size_t\<close>, followed by its
  bytes. The deserializer reads from the front of the remaining input and fails with
  \<open>ReadError\<close> when the input ends before the requested bytes; it is finished when no
  input remains.
\<close>

fun le_bytes :: "nat \<Rightarrow> nat \<Rightarrow> byte list" where
  "le_bytes 0 n = []"
| "le_bytes (Suc k) n = of_nat (n mod 256) # le_bytes k (n div 256)"

fun le_value :: "byte list \<Rightarrow> nat" where
  "le_value [] = 0"
| "le_value (b # bs) = unat b + 256 * le_value bs"

definition put_int :: "u64 \<Rightarrow> byte list" where
  "put_int v = le_bytes 8 (unat v)"

definition put_float :: "u64 \<Rightarrow> byte list" where
  "put_float v = le_bytes 8 (unat v)"

definition put_string :: "byte list \<Rightarrow> byte list" where
  "put_string v = put_int (of_nat (length v)) @ v"

definition get_raw_string :: "nat \<Rightarrow> byte list \<Rightarrow> error + (byte list \<times> byte list)" where
  "get_raw_string n inp =
     (if length inp < n then Inl ReadError else Inr (take n inp, drop n inp))"

definition get_uchar :: "byte list \<Rightarrow> error + (byte \<times> byte list)" where
  "get_uchar inp = (case inp of [] \<Rightarrow> Inl ReadError | b # rest \<Rightarrow> Inr (b, rest))"

definition get_int :: "byte list \<Rightarrow> error + (u64 \<times> byte list)" where
  "get_int inp =
     rbind (get_raw_string 8 inp) (\<lambda>(bs, rest). Inr (of_nat (le_value bs), rest))"

definition get_float :: "byte list \<Rightarrow> error + (u64 \<times> byte list)" where
  "get_float inp =
     rbind (get_raw_string 8 inp) (\<lambda>(bs, rest). Inr (of_nat (le_value bs), rest))"

definition get_string :: "byte list \<Rightarrow> error + (byte list \<times> byte list)" where
  "get_string inp = rbind (get_int inp) (\<lambda>(len, rest). get_raw_string (unat len) rest)"

definition finished :: "byte list \<Rightarrow> bool" where
  "finished inp = (inp = [])"

subsection \<open>Header\<close>

text \<open>The eight bytes \<open>"BPLACE\0\0"\<close> of the magic tag, and the version of the format.\<close>

definition magic :: "byte list" where
  "magic = [0x42, 0x50, 0x4C, 0x41, 0x43, 0x45, 0, 0]"

definition version :: byte where
  "version = 1"

text \<open>
  \<open>c_str()\<close> of a string and a string literal: the bytes followed by the terminating zero.
\<close>

definition c_str :: "byte list \<Rightarrow> byte list" where
  "c_str v = v @ [0]"

text \<open>
  \<open>strncmp( a, b, n ) == 0\<close> of the C library: at most \<open>n\<close> characters are compared, and
  the characters after a zero character are not compared.
\<close>

fun strncmp_eq :: "byte list \<Rightarrow> byte list \<Rightarrow> nat \<Rightarrow> bool" where
  "strncmp_eq a b 0 = True"
| "strncmp_eq (x # a) (y # b) (Suc n) =
     (if x \<noteq> y then False else if x = 0 then True else strncmp_eq a b n)"
| "strncmp_eq a b (Suc n) = False"

subsection \<open>Save\<close>

definition save_placement :: "PqueryPlacement \<Rightarrow> byte list" where
  "save_placement place =
     put_int (of_nat (ref_index (placement_edge place)))
     @ put_float (likelihood place)
     @ put_float (like_weight_ratio place)
     @ put_float (proximal_length place)
     @ put_float (pendant_length place)"

definition save_name :: "PqueryName \<Rightarrow> byte list" where
  "save_name nm = put_string (pname nm) @ put_float (multiplicity nm)"

definition save_pquery :: "Pquery \<Rightarrow> byte list" where
  "save_pquery pqry =
     put_int (of_nat (length (placements pqry)))
     @ concat (map save_placement (placements pqry))
     @ put_int (of_nat (length (pnames pqry)))
     @ concat (map save_name (pnames pqry))"

text \<open>
  \<open>SampleSerializer::save\<close>: the bytes written to the file. The Newick writer for the tree
  is not part of the sources and is the parameter \<open>write_tree\<close>.
\<close>

definition save :: "(Tree \<Rightarrow> byte list) \<Rightarrow> Sample \<Rightarrow> byte list" where
  "save write_tree smp =
     take 8 (c_str magic)
     @ [version]
     @ put_string (write_tree (sample_tree smp))
     @ put_int (of_nat (length (pqueries smp)))
     @ concat (map save_pquery (pqueries smp))"

subsection \<open>Load\<close>

text \<open>
  The value 1.0 of a \<open>double\<close>, the multiplicity of a name added without one.
\<close>

definition double_one :: u64 where
  "double_one = 0x3FF0000000000000"

text \<open>
  The loop over the placements of a Pquery: each is added at the edge of the read index,
  with the four numbers read after it.
\<close>

fun load_placements ::
  "Tree \<Rightarrow> nat \<Rightarrow> byte list \<Rightarrow> error + (PqueryPlacement list \<times> byte list)" where
  "load_placements t 0 inp = Inr ([], inp)"
| "load_placements t (Suc n) inp =
     rbind (get_int inp) (\<lambda>(edge_idx, inp1).
     rbind (edge_at t (unat edge_idx)) (\<lambda>edge.
     rbind (get_float inp1) (\<lambda>(lik, inp2).
     rbind (get_float inp2) (\<lambda>(lwr, inp3).
     rbind (get_float inp3) (\<lambda>(prox, inp4).
     rbind (get_float inp4) (\<lambda>(pend, inp5).
     rbind (load_placements t n inp5) (\<lambda>(places, inp6).
       Inr (\<lparr>placement_edge = edge, likelihood = lik, like_weight_ratio = lwr,
              proximal_length = prox, pendant_length = pend\<rparr> # places, inp6))))))))"

text \<open>
  The loop over the names of a Pquery. The multiplicity that is read is assigned to a copy
  of the added name (\<open>auto name = pqry.add_name( ... )\<close>), so that the name in the Pquery
  keeps the multiplicity 1.0 that \<open>add_name\<close> gives it.
\<close>

fun load_names :: "nat \<Rightarrow> byte list \<Rightarrow> error + (PqueryName list \<times> byte list)" where
  "load_names 0 inp = Inr ([], inp)"
| "load_names (Suc n) inp =
     rbind (get_string inp) (\<lambda>(str, inp1).
     rbind (get_float inp1) (\<lambda>(mult, inp2).
     rbind (load_names n inp2) (\<lambda>(nms, inp3).
       Inr (\<lparr>pname = str, multiplicity = double_one\<rparr> # nms, inp3))))"

fun load_pqueries :: "Tree \<Rightarrow> nat \<Rightarrow> byte list \<Rightarrow> error + (Pquery list \<times> byte list)" where
  "load_pqueries t 0 inp = Inr ([], inp)"
| "load_pqueries t (Suc n) inp =
     rbind (get_int inp) (\<lambda>(num_place, inp1).
     rbind (load_placements t (unat num_place) inp1) (\<lambda>(places, inp2).
     rbind (get_int inp2) (\<lambda>(num_names, inp3).
     rbind (load_names (unat num_names) inp3) (\<lambda>(nms, inp4).
     rbind (load_pqueries t n inp4) (\<lambda>(pqs, inp5).
       Inr (\<lparr>placements = places, pnames = nms\<rparr> # pqs, inp5))))))"

text \<open>
  \<open>SampleSerializer::load\<close>, from the bytes of the file. The Newick reader for the tree
  is not part of the sources and is the parameter \<open>read_tree\<close>.
\<close>

definition load :: "(byte list \<Rightarrow> error + Tree) \<Rightarrow> byte list \<Rightarrow> error + Sample" where
  "load read_tree inp =
     rbind (get_raw_string 8 inp) (\<lambda>(mgc, inp1).
       if \<not> strncmp_eq (c_str mgc) (c_str magic) 8 then Inl FormatError
       else
         rbind (get_uchar inp1) (\<lambda>(ver, inp2).
           if ver \<noteq> version then Inl VersionError
           else
             rbind (get_string inp2) (\<lambda>(tree_string, inp3).
             rbind (read_tree tree_string) (\<lambda>t.
             rbind (get_int inp3) (\<lambda>(num_pqueries, inp4).
             rbind (load_pqueries t (unat num_pqueries) inp4) (\<lambda>(pqs, inp5).
               if \<not> finished inp5 then Inl TruncatedInputError
               else Inr \<lparr>sample_tree = t, pqueries = pqs\<rparr>))))))"

subsection \<open>Samples that can be written\<close>

text \<open>
  The placements of the sample are on edges of its own tree.
\<close>

definition placements_on_tree :: "Sample \<Rightarrow> bool" where
  "placements_on_tree smp =
     (\<forall>pqry \<in> set (pqueries smp). \<forall>place \<in> set (placements pqry).
        belongs_to_edge (sample_tree smp) (placement_edge place))"

text \<open>
  The sizes that the serializer writes as a \<open>size_t\<close> are below \<open>2^64\<close>, as the sizes
  of all containers and strings of the program are.
\<close>

definition pquery_sizes_fit :: "Pquery \<Rightarrow> bool" where
  "pquery_sizes_fit pqry =
     (length (placements pqry) < 2 ^ 64 \<and> length (pnames pqry) < 2 ^ 64 \<and>
      (\<forall>nm \<in> set (pnames pqry). length (pname nm) < 2 ^ 64))"

definition sizes_fit :: "(Tree \<Rightarrow> byte list) \<Rightarrow> Sample \<Rightarrow> bool" where
  "sizes_fit write_tree smp =
     (edge_count (sample_tree smp) < 2 ^ 64 \<and>
      length (write_tree (sample_tree smp)) < 2 ^ 64 \<and>
      length (pqueries smp) < 2 ^ 64 \<and>
      (\<forall>pqry \<in> set (pqueries smp). pquery_sizes_fit pqry))"

text \<open>The four numbers of a placement.\<close>

definition placement_numbers :: "PqueryPlacement \<Rightarrow> u64 \<times> u64 \<times> u64 \<times> u64" where
  "placement_numbers place =
     (likelihood place, like_weight_ratio place, proximal_length place, pendant_length place)"

text \<open>
  What \<open>load\<close> makes of a placement, a name and a Pquery that \<open>save\<close> has written: the
  placement is on the edge of the same index of the tree that was read, and the name has
  the multiplicity 1.0.
\<close>

definition reloaded_placement :: "Tree \<Rightarrow> PqueryPlacement \<Rightarrow> PqueryPlacement" where
  "reloaded_placement t place =
     \<lparr>placement_edge = \<lparr>ref_owner = tree_id t, ref_index = ref_index (placement_edge place)\<rparr>,
      likelihood = likelihood place, like_weight_ratio = like_weight_ratio place,
      proximal_length = proximal_length place, pendant_length = pendant_length place\<rparr>"

definition reloaded_name :: "PqueryName \<Rightarrow> PqueryName" where
  "reloaded_name nm = \<lparr>pname = pname nm, multiplicity = double_one\<rparr>"

definition reloaded_pquery :: "Tree \<Rightarrow> Pquery \<Rightarrow> Pquery" where
  "reloaded_pquery t pqry =
     \<lparr>placements = map (reloaded_placement t) (placements pqry),
      pnames = map reloaded_name (pnames pqry)\<rparr>"

section \<open>Valid topologies\<close>

text \<open>
  The part of the tree behind a link is a finite tree: the links around the node of the
  link come back to the link, and behind the outer link of each of the other links there is
  again a finite tree. The first argument bounds the height.
\<close>

fun tree_behind :: "nat \<Rightarrow> Tree \<Rightarrow> nat \<Rightarrow> bool" where
  "tree_behind 0 t l = False"
| "tree_behind (Suc k) t l =
     (case ring_rest t l of
        None \<Rightarrow> False
      | Some cs \<Rightarrow> (\<forall>c \<in> set cs. tree_behind k t (outr t c)))"

text \<open>The link \<open>l\<close> is one of the links around a node, counted from its link \<open>p\<close>.\<close>

definition on_ring :: "Tree \<Rightarrow> nat \<Rightarrow> nat \<Rightarrow> bool" where
  "on_ring t p l = (case ring_rest t p of None \<Rightarrow> False | Some cs \<Rightarrow> l = p \<or> l \<in> set cs)"

text \<open>
  Modelled from the spec: the tree class and its validation are not part of the sources.
  These are the invariants of the data model that the tree functions rely on. Every index
  stored in an element is within its table. A link belongs to one node, whose links form one
  circular list that starts at the primary link of the node, and to one edge, of which it is
  the primary or the secondary link; the outer link of its outer link is the link itself;
  behind every link there is a finite tree. The primary link of a node is a link of this
  node, and, except for the root node, it is the secondary link of its edge. The two links
  of an edge are distinct, belong to this edge and are the outer links of each other, and
  the secondary link is the primary link of its node. The root link is the primary link of
  the root node and the primary link of its edge. The empty tree is valid.
\<close>

definition valid_links :: "Tree \<Rightarrow> bool" where
  "valid_links t =
     (\<forall>l \<in> set [0..<link_count t].
        nxt t l < link_count t \<and> outr t l < link_count t \<and>
        nod t l < node_count t \<and> edg t l < edge_count t \<and>
        nod t (nxt t l) = nod t l \<and>
        outr t (outr t l) = l \<and>
        on_ring t (primary_link t (nod t l)) l \<and>
        (l = edge_primary_link t (edg t l) \<or> l = edge_secondary_link t (edg t l)) \<and>
        tree_behind (link_count t) t l)"

definition valid_nodes :: "Tree \<Rightarrow> bool" where
  "valid_nodes t =
     (\<forall>n \<in> set [0..<node_count t].
        primary_link t n < link_count t \<and>
        nod t (primary_link t n) = n \<and>
        (n = root_node t \<or> edge_secondary_link t (edg t (primary_link t n)) = primary_link t n))"

definition valid_edges :: "Tree \<Rightarrow> bool" where
  "valid_edges t =
     (\<forall>e \<in> set [0..<edge_count t].
        edge_primary_link t e < link_count t \<and>
        edge_secondary_link t e < link_count t \<and>
        edg t (edge_primary_link t e) = e \<and>
        edg t (edge_secondary_link t e) = e \<and>
        outr t (edge_primary_link t e) = edge_secondary_link t e \<and>
        edge_primary_link t e \<noteq> edge_secondary_link t e \<and>
        primary_link t (nod t (edge_secondary_link t e)) = edge_secondary_link t e)"

definition valid_root :: "Tree \<Rightarrow> bool" where
  "valid_root t =
     (root_link t < link_count t \<and>
      primary_link t (root_node t) = root_link t \<and>
      edge_primary_link t (edg t (root_link t)) = root_link t)"

definition valid_topology :: "Tree \<Rightarrow> bool" where
  "valid_topology t =
     (tree_empty t \<or> (valid_root t \<and> valid_links t \<and> valid_nodes t \<and> valid_edges t))"

text \<open>
  The sum of the degrees of the nodes of a list, when the degree of each of them returns.
\<close>

fun sum_degrees :: "Tree \<Rightarrow> nat list \<Rightarrow> nat option" where
  "sum_degrees t [] = Some 0"
| "sum_degrees t (n # ns) =
     (case degree t n of
        None \<Rightarrow> None
      | Some d \<Rightarrow> map_option (\<lambda>s. d + s) (sum_degrees t ns))"

section \<open>Reference topologies\<close>

text \<open>
  Modelled from the spec: the Newick reader is not part of the sources. The tables below are
  the topologies as the reader lays them out: the nodes in preorder with the children of a
  node taken last to first, the links of a node in a row, the primary link first (the root
  has no link towards a parent), and the edges in the order of their secondary nodes. For
  the reference topology this layout reproduces the values that the tests of the tree
  functions expect for every link and node index.
\<close>

text \<open>
  The reference topology \<open>((B,(D,E)C)A,F,(H,I)G)R;\<close> with ten nodes. Node indices:
  0 = R, 1 = G, 2 = I, 3 = H, 4 = F, 5 = A, 6 = C, 7 = E, 8 = D, 9 = B.
\<close>

definition reference_tree :: Tree where
  "reference_tree = \<lparr>
     links = [
       \<lparr>link_next = 1, link_outer = 9, link_node = 0, link_edge = 4\<rparr>,
       \<lparr>link_next = 2, link_outer = 8, link_node = 0, link_edge = 3\<rparr>,
       \<lparr>link_next = 0, link_outer = 3, link_node = 0, link_edge = 0\<rparr>,
       \<lparr>link_next = 4, link_outer = 2, link_node = 1, link_edge = 0\<rparr>,
       \<lparr>link_next = 5, link_outer = 7, link_node = 1, link_edge = 2\<rparr>,
       \<lparr>link_next = 3, link_outer = 6, link_node = 1, link_edge = 1\<rparr>,
       \<lparr>link_next = 6, link_outer = 5, link_node = 2, link_edge = 1\<rparr>,
       \<lparr>link_next = 7, link_outer = 4, link_node = 3, link_edge = 2\<rparr>,
       \<lparr>link_next = 8, link_outer = 1, link_node = 4, link_edge = 3\<rparr>,
       \<lparr>link_next = 10, link_outer = 0, link_node = 5, link_edge = 4\<rparr>,
       \<lparr>link_next = 11, link_outer = 17, link_node = 5, link_edge = 8\<rparr>,
       \<lparr>link_next = 9, link_outer = 12, link_node = 5, link_edge = 5\<rparr>,
       \<lparr>link_next = 13, link_outer = 11, link_node = 6, link_edge = 5\<rparr>,
       \<lparr>link_next = 14, link_outer = 16, link_node = 6, link_edge = 7\<rparr>,
       \<lparr>link_next = 12, link_outer = 15, link_node = 6, link_edge = 6\<rparr>,
       \<lparr>link_next = 15, link_outer = 14, link_node = 7, link_edge = 6\<rparr>,
       \<lparr>link_next = 16, link_outer = 13, link_node = 8, link_edge = 7\<rparr>,
       \<lparr>link_next = 17, link_outer = 10, link_node = 9, link_edge = 8\<rparr>
     ],
     nodes = [
       \<lparr>node_link = 0\<rparr>,
       \<lparr>node_link = 3\<rparr>,
       \<lparr>node_link = 6\<rparr>,
       \<lparr>node_link = 7\<rparr>,
       \<lparr>node_link = 8\<rparr>,
       \<lparr>node_link = 9\<rparr>,
       \<lparr>node_link = 12\<rparr>,
       \<lparr>node_link = 15\<rparr>,
       \<lparr>node_link = 16\<rparr>,
       \<lparr>node_link = 17\<rparr>
     ],
     edges = [
       \<lparr>edge_link_p = 2, edge_link_s = 3\<rparr>,
       \<lparr>edge_link_p = 5, edge_link_s = 6\<rparr>,
       \<lparr>edge_link_p = 4, edge_link_s = 7\<rparr>,
       \<lparr>edge_link_p = 1, edge_link_s = 8\<rparr>,
       \<lparr>edge_link_p = 0, edge_link_s = 9\<rparr>,
       \<lparr>edge_link_p = 11, edge_link_s = 12\<rparr>,
       \<lparr>edge_link_p = 14, edge_link_s = 15\<rparr>,
       \<lparr>edge_link_p = 13, edge_link_s = 16\<rparr>,
       \<lparr>edge_link_p = 10, edge_link_s = 17\<rparr>
     ],
     root_link = 0,
     tree_id = 1\<rparr>"

text \<open>
  The rooted topology \<open>((B,(D,E)C)A,(H,I)G)R;\<close> with nine nodes: the reference topology
  without the leaf F. Node indices:
  0 = R, 1 = G, 2 = I, 3 = H, 4 = A, 5 = C, 6 = E, 7 = D, 8 = B.
\<close>

definition rooted_tree :: Tree where
  "rooted_tree = \<lparr>
     links = [
       \<lparr>link_next = 1, link_outer = 7, link_node = 0, link_edge = 3\<rparr>,
       \<lparr>link_next = 0, link_outer = 2, link_node = 0, link_edge = 0\<rparr>,
       \<lparr>link_next = 3, link_outer = 1, link_node = 1, link_edge = 0\<rparr>,
       \<lparr>link_next = 4, link_outer = 6, link_node = 1, link_edge = 2\<rparr>,
       \<lparr>link_next = 2, link_outer = 5, link_node = 1, link_edge = 1\<rparr>,
       \<lparr>link_next = 5, link_outer = 4, link_node = 2, link_edge = 1\<rparr>,
       \<lparr>link_next = 6, link_outer = 3, link_node = 3, link_edge = 2\<rparr>,
       \<lparr>link_next = 8, link_outer = 0, link_node = 4, link_edge = 3\<rparr>,
       \<lparr>link_next = 9, link_outer = 15, link_node = 4, link_edge = 7\<rparr>,
       \<lparr>link_next = 7, link_outer = 10, link_node = 4, link_edge = 4\<rparr>,
       \<lparr>link_next = 11, link_outer = 9, link_node = 5, link_edge = 4\<rparr>,
       \<lparr>link_next = 12, link_outer = 14, link_node = 5, link_edge = 6\<rparr>,
       \<lparr>link_next = 10, link_outer = 13, link_node = 5, link_edge = 5\<rparr>,
       \<lparr>link_next = 13, link_outer = 12, link_node = 6, link_edge = 5\<rparr>,
       \<lparr>link_next = 14, link_outer = 11, link_node = 7, link_edge = 6\<rparr>,
       \<lparr>link_next = 15, link_outer = 8, link_node = 8, link_edge = 7\<rparr>
     ],
     nodes = [
       \<lparr>node_link = 0\<rparr>,
       \<lparr>node_link = 2\<rparr>,
       \<lparr>node_link = 5\<rparr>,
       \<lparr>node_link = 6\<rparr>,
       \<lparr>node_link = 7\<rparr>,
       \<lparr>node_link = 10\<rparr>,
       \<lparr>node_link = 13\<rparr>,
       \<lparr>node_link = 14\<rparr>,
       \<lparr>node_link = 15\<rparr>
     ],
     edges = [
       \<lparr>edge_link_p = 1, edge_link_s = 2\<rparr>,
       \<lparr>edge_link_p = 4, edge_link_s = 5\<rparr>,
       \<lparr>edge_link_p = 3, edge_link_s = 6\<rparr>,
       \<lparr>edge_link_p = 0, edge_link_s = 7\<rparr>,
       \<lparr>edge_link_p = 9, edge_link_s = 10\<rparr>,
       \<lparr>edge_link_p = 12, edge_link_s = 13\<rparr>,
       \<lparr>edge_link_p = 11, edge_link_s = 14\<rparr>,
       \<lparr>edge_link_p = 8, edge_link_s = 15\<rparr>
     ],
     root_link = 0,
     tree_id = 2\<rparr>"

text \<open>The topology \<open>(A,B)R;\<close> with three nodes: 0 = R, 1 = B, 2 = A.\<close>

definition cherry_tree :: Tree where
  "cherry_tree = \<lparr>
     links = [
       \<lparr>link_next = 1, link_outer = 3, link_node = 0, link_edge = 1\<rparr>,
       \<lparr>link_next = 0, link_outer = 2, link_node = 0, link_edge = 0\<rparr>,
       \<lparr>link_next = 2, link_outer = 1, link_node = 1, link_edge = 0\<rparr>,
       \<lparr>link_next = 3, link_outer = 0, link_node = 2, link_edge = 1\<rparr>
     ],
     nodes = [
       \<lparr>node_link = 0\<rparr>,
       \<lparr>node_link = 2\<rparr>,
       \<lparr>node_link = 3\<rparr>
     ],
     edges = [
       \<lparr>edge_link_p = 1, edge_link_s = 2\<rparr>,
       \<lparr>edge_link_p = 0, edge_link_s = 3\<rparr>
     ],
     root_link = 0,
     tree_id = 3\<rparr>"

text \<open>
  Modelled from the spec: \<open>node_path_length_vector( tree, node )\<close> is not part of the
  sources. Its vector for a node holds, for each node of the tree, the number of edges on
  the path between the two nodes. The rows below are these vectors for the nodes of the
  reference topology.
\<close>

definition reference_path_lengths :: "nat list list" where
  "reference_path_lengths =
     [ [0, 1, 2, 2, 1, 1, 2, 3, 3, 2],
       [1, 0, 1, 1, 2, 2, 3, 4, 4, 3],
       [2, 1, 0, 2, 3, 3, 4, 5, 5, 4],
       [2, 1, 2, 0, 3, 3, 4, 5, 5, 4],
       [1, 2, 3, 3, 0, 2, 3, 4, 4, 3],
       [1, 2, 3, 3, 2, 0, 1, 2, 2, 1],
       [2, 3, 4, 4, 3, 1, 0, 1, 1, 2],
       [3, 4, 5, 5, 4, 2, 1, 0, 2, 3],
       [3, 4, 5, 5, 4, 2, 1, 2, 0, 3],
       [2, 3, 4, 4, 3, 1, 2, 3, 3, 0] ]"

definition reference_node_path_length_vector ::
  "Tree \<Rightarrow> ElemRef \<Rightarrow> (error + nat list) option" where
  "reference_node_path_length_vector t r = Some (Inr (reference_path_lengths ! ref_index r))"

text \<open>The empty tree.\<close>

definition empty_tree :: Tree where
  "empty_tree = \<lparr>links = [], nodes = [], edges = [], root_link = 0, tree_id = 0\<rparr>"

section \<open>An example sample\<close>

text \<open>
  A writer and a reader for the one tree \<open>(A,B)R;\<close>, standing for the Newick writer and
  reader: the writer gives the seven characters of the string, the reader accepts this
  string and nothing else.
\<close>

definition example_newick :: "byte list" where
  "example_newick = [0x28, 0x41, 0x2C, 0x42, 0x29, 0x52, 0x3B]"

definition example_writer :: "Tree \<Rightarrow> byte list" where
  "example_writer t = example_newick"

definition example_reader :: "byte list \<Rightarrow> error + Tree" where
  "example_reader str = (if str = example_newick then Inr cherry_tree else Inl NewickError)"

text \<open>
  A sample on this tree with two Pqueries: the first with two placements (on the edges 0
  and 1) and one name, the second with one placement and two names. The numbers are
  patterns of doubles such as 0.5, -1.5, 0.25, 2.0 and 1.0.
\<close>

definition example_sample :: Sample where
  "example_sample =
     \<lparr>sample_tree = cherry_tree,
      pqueries =
        [\<lparr>placements =
            [\<lparr>placement_edge = \<lparr>ref_owner = 3, ref_index = 0\<rparr>,
               likelihood = 0xBFF8000000000000, like_weight_ratio = 0x3FE0000000000000,
               proximal_length = 0x3FD0000000000000, pendant_length = 0x4000000000000000\<rparr>,
             \<lparr>placement_edge = \<lparr>ref_owner = 3, ref_index = 1\<rparr>,
               likelihood = 0xBFF8000000000000, like_weight_ratio = 0x3FD0000000000000,
               proximal_length = 0x3FE0000000000000, pendant_length = 0x3FF0000000000000\<rparr>],
           pnames = [\<lparr>pname = [0x71, 0x31], multiplicity = 0x4000000000000000\<rparr>]\<rparr>,
         \<lparr>placements =
            [\<lparr>placement_edge = \<lparr>ref_owner = 3, ref_index = 1\<rparr>,
               likelihood = 0x3FF0000000000000, like_weight_ratio = 0x3FF0000000000000,
               proximal_length = 0, pendant_length = 0x3FE0000000000000\<rparr>],
           pnames = [\<lparr>pname = [0x71, 0x32], multiplicity = 0x3FF0000000000000\<rparr>,
                     \<lparr>pname = [], multiplicity = 0x3FF0000000000000\<rparr>]\<rparr>]\<rparr>"

text \<open>
  A file that differs from a written sample without Pqueries only in the last byte of the
  magic tag, which is 1 instead of 0: the tag, the version 1, the length 7 and the bytes of
  the tree string, and the number 0 of Pqueries.
\<close>

definition wrong_magic_file :: "byte list" where
  "wrong_magic_file =
     [0x42, 0x50, 0x4C, 0x41, 0x43, 0x45, 0x00, 0x01,
      0x01,
      0x07, 0, 0, 0, 0, 0, 0, 0,
      0x28, 0x41, 0x2C, 0x42, 0x29, 0x52, 0x3B,
      0, 0, 0, 0, 0, 0, 0, 0]"

section \<open>Evaluation on the reference topologies\<close>

lemmas link_eval =
  nxt_def outr_def nod_def edg_def primary_link_def root_node_def
  node_count_def link_count_def edge_count_def
  edge_primary_link_def edge_secondary_link_def
  is_inner_def is_inner_link_def is_leaf_def is_leaf_link_def

lemmas loop_eval =
  degree_def degree_loop.simps ring_rest_def ring_loop.simps
  preorder_subtree_def preorder_loop.simps

lemma is_rooted_reference_tree: "is_rooted reference_tree = Some False"
  by (simp add: is_rooted_def link_eval loop_eval reference_tree_def)

lemma is_rooted_rooted_tree: "is_rooted rooted_tree = Some True"
  by (simp add: is_rooted_def link_eval loop_eval rooted_tree_def)

lemma is_bifurcating_rooted_tree: "is_bifurcating rooted_tree False = Some True"
  by (simp add: is_bifurcating_def link_eval loop_eval rooted_tree_def upt_conv_Cons)

lemma not_empty_reference_tree: "\<not> tree_empty reference_tree"
  by (simp add: tree_empty_def reference_tree_def)

lemma not_empty_rooted_tree: "\<not> tree_empty rooted_tree"
  by (simp add: tree_empty_def rooted_tree_def)

lemma sign_matrix_rows_rooted_tree:
  "sign_matrix_rows rooted_tree [0..<node_count rooted_tree]
     (mat_init (node_count rooted_tree) (node_count rooted_tree) 0) =
   Some \<lparr>mat_rows = 9, mat_cols = 9, mat_data =
     [0, - 1, - 1, - 1, 1, 1, 1, 1, 1,
      0, 0, - 1, 1, 0, 0, 0, 0, 0,
      0, 0, 0, 0, 0, 0, 0, 0, 0,
      0, 0, 0, 0, 0, 0, 0, 0, 0,
      0, 0, 0, 0, 0, - 1, - 1, - 1, 1,
      0, 0, 0, 0, 0, 0, - 1, 1, 0,
      0, 0, 0, 0, 0, 0, 0, 0, 0,
      0, 0, 0, 0, 0, 0, 0, 0, 0,
      0, 0, 0, 0, 0, 0, 0, 0, 0]\<rparr>"
  by (simp add: link_eval loop_eval rooted_tree_def upt_conv_Cons sign_matrix_row_def
      fill_subtree_indices_def mat_init_def mat_set_def)

section \<open>Properties of the serialization\<close>

lemma rbind_Inr [simp]: "rbind (Inr x) f = f x"
  by (simp add: rbind_def)

lemma rbind_Inl [simp]: "rbind (Inl e) f = Inl e"
  by (simp add: rbind_def)

lemma get_raw_string_append:
  "length a = n \<Longrightarrow> get_raw_string n (a @ rest) = Inr (a, rest)"
  by (simp add: get_raw_string_def)

lemma length_le_bytes: "length (le_bytes k n) = k"
  by (induction k arbitrary: n) simp_all

lemma le_value_le_bytes: "le_value (le_bytes k n) = n mod 256 ^ k"
proof (induction k arbitrary: n)
  case 0
  then show ?case by simp
next
  case (Suc k)
  have "unat (of_nat (n mod 256) :: byte) = n mod 256"
    by (simp add: unat_of_nat)
  then have "le_value (le_bytes (Suc k) n) = n mod 256 + 256 * ((n div 256) mod 256 ^ k)"
    by (simp add: Suc.IH)
  also have "\<dots> = n mod (256 * 256 ^ k)"
    by (simp add: mod_mult2_eq)
  finally show ?case by simp
qed

lemma u64_of_le_bytes: "of_nat (le_value (le_bytes 8 (unat (v :: u64)))) = v"
proof -
  have "unat v < 2 ^ 64"
    using unsigned_less [of v] by simp
  then have "unat v mod 256 ^ 8 = unat v"
    by simp
  then show ?thesis
    by (simp add: le_value_le_bytes)
qed

lemma get_int_put_int: "get_int (put_int v @ rest) = Inr (v, rest)"
  by (simp add: get_int_def put_int_def get_raw_string_append length_le_bytes u64_of_le_bytes)

lemma get_float_put_float: "get_float (put_float v @ rest) = Inr (v, rest)"
  by (simp add: get_float_def put_float_def get_raw_string_append length_le_bytes u64_of_le_bytes)

lemma unat_of_nat_u64: "n < 2 ^ 64 \<Longrightarrow> unat (of_nat n :: u64) = n"
  by (simp add: unat_of_nat)

lemma get_string_put_string:
  "length v < 2 ^ 64 \<Longrightarrow> get_string (put_string v @ rest) = Inr (v, rest)"
  by (simp add: get_string_def put_string_def get_int_put_int unat_of_nat_u64
      get_raw_string_append)

lemma load_placements_step:
  assumes "ref_index (placement_edge place) < edge_count t" and "edge_count t < 2 ^ 64"
  shows "load_placements t (Suc n) (save_placement place @ inp0)
         = rbind (load_placements t n inp0)
             (\<lambda>(places, inp). Inr (reloaded_placement t place # places, inp))"
proof -
  have u: "unat (of_nat (ref_index (placement_edge place)) :: u64)
             = ref_index (placement_edge place)"
    using assms by (simp add: unat_of_nat_u64)
  show ?thesis
    by (simp add: save_placement_def get_int_put_int get_float_put_float u assms(1) edge_at_def
        reloaded_placement_def)
qed

lemma load_save_placements:
  assumes "\<forall>place \<in> set ps. ref_index (placement_edge place) < edge_count t"
    and "edge_count t < 2 ^ 64"
  shows "load_placements t (length ps) (concat (map save_placement ps) @ rest)
         = Inr (map (reloaded_placement t) ps, rest)"
  using assms(1)
proof (induction ps)
  case Nil
  then show ?case by simp
next
  case (Cons place ps)
  have i: "ref_index (placement_edge place) < edge_count t"
    using Cons.prems by simp
  have ih: "load_placements t (length ps) (concat (map save_placement ps) @ rest)
         = Inr (map (reloaded_placement t) ps, rest)"
    using Cons by simp
  show ?case
    using load_placements_step[OF i assms(2), of "length ps" "concat (map save_placement ps) @ rest"]
    by (simp add: ih del: load_placements.simps)
qed

lemma load_names_step:
  assumes "length (pname nm) < 2 ^ 64"
  shows "load_names (Suc n) (save_name nm @ inp0)
         = rbind (load_names n inp0) (\<lambda>(nms, inp). Inr (reloaded_name nm # nms, inp))"
  by (simp add: save_name_def get_string_put_string[OF assms] get_float_put_float
      reloaded_name_def)

lemma load_save_names:
  assumes "\<forall>nm \<in> set ns. length (pname nm) < 2 ^ 64"
  shows "load_names (length ns) (concat (map save_name ns) @ rest)
         = Inr (map reloaded_name ns, rest)"
  using assms
proof (induction ns)
  case Nil
  then show ?case by simp
next
  case (Cons nm ns)
  have ih: "load_names (length ns) (concat (map save_name ns) @ rest)
         = Inr (map reloaded_name ns, rest)"
    using Cons by simp
  have l: "length (pname nm) < 2 ^ 64"
    using Cons.prems by simp
  show ?case
    using load_names_step[OF l, of "length ns" "concat (map save_name ns) @ rest"]
    by (simp add: ih del: load_names.simps)
qed

lemma load_pqueries_step:
  assumes f: "pquery_sizes_fit pqry"
    and on: "\<forall>place \<in> set (placements pqry). belongs_to_edge t (placement_edge place)"
    and ec: "edge_count t' = edge_count t" and e64: "edge_count t < 2 ^ 64"
  shows "load_pqueries t' (Suc n) (save_pquery pqry @ inp0)
         = rbind (load_pqueries t' n inp0)
             (\<lambda>(pqs, inp). Inr (reloaded_pquery t' pqry # pqs, inp))"
proof -
  have e: "\<forall>place \<in> set (placements pqry). ref_index (placement_edge place) < edge_count t'"
    using on ec by (simp add: belongs_to_edge_def)
  have n: "\<forall>nm \<in> set (pnames pqry). length (pname nm) < 2 ^ 64"
    using f by (simp add: pquery_sizes_fit_def)
  have lp: "unat (of_nat (length (placements pqry)) :: u64) = length (placements pqry)"
    using f by (simp add: pquery_sizes_fit_def unat_of_nat_u64)
  have ln: "unat (of_nat (length (pnames pqry)) :: u64) = length (pnames pqry)"
    using f by (simp add: pquery_sizes_fit_def unat_of_nat_u64)
  have e64': "edge_count t' < 2 ^ 64"
    using ec e64 by simp
  show ?thesis
    by (simp add: save_pquery_def get_int_put_int lp ln load_save_placements[OF e e64']
        load_save_names[OF n] reloaded_pquery_def)
qed

lemma load_save_pqueries:
  assumes "\<forall>pqry \<in> set qs. pquery_sizes_fit pqry \<and>
             (\<forall>place \<in> set (placements pqry). belongs_to_edge t (placement_edge place))"
    and "edge_count t' = edge_count t" and "edge_count t < 2 ^ 64"
  shows "load_pqueries t' (length qs) (concat (map save_pquery qs) @ rest)
         = Inr (map (reloaded_pquery t') qs, rest)"
  using assms(1)
proof (induction qs)
  case Nil
  then show ?case by simp
next
  case (Cons pqry qs)
  have f: "pquery_sizes_fit pqry"
    and on: "\<forall>place \<in> set (placements pqry). belongs_to_edge t (placement_edge place)"
    using Cons.prems by simp_all
  have ih: "load_pqueries t' (length qs) (concat (map save_pquery qs) @ rest)
         = Inr (map (reloaded_pquery t') qs, rest)"
    using Cons by simp
  show ?case
    using load_pqueries_step[OF f on assms(2,3), of "length qs" "concat (map save_pquery qs) @ rest"]
    by (simp add: ih del: load_pqueries.simps)
qed

lemma length_magic: "length magic = 8"
  by (simp add: magic_def)

lemma strncmp_magic:
  "length mgc = 8 \<Longrightarrow> strncmp_eq (c_str mgc) (c_str magic) 8 = (take 7 mgc = take 7 magic)"
proof -
  assume "length mgc = 8"
  then obtain a b c d e f g h where m: "mgc = [a, b, c, d, e, f, g, h]"
    by (auto simp: length_Suc_conv eval_nat_numeral)
  have e: "(8::nat) = Suc (Suc (Suc (Suc (Suc (Suc (Suc (Suc 0)))))))"
    by simp
  have "strncmp_eq (c_str mgc) (c_str magic) (Suc (Suc (Suc (Suc (Suc (Suc (Suc (Suc 0))))))))
          = (take 7 mgc = take 7 magic)"
    unfolding m by (simp add: c_str_def magic_def)
  then show ?thesis
    by (simp only: e)
qed

lemma load_save:
  assumes rt: "read_tree (write_tree (sample_tree smp)) = Inr t'"
    and ec: "edge_count t' = edge_count (sample_tree smp)"
    and on: "placements_on_tree smp"
    and fit: "sizes_fit write_tree smp"
  shows "load read_tree (save write_tree smp)
         = Inr \<lparr>sample_tree = t', pqueries = map (reloaded_pquery t') (pqueries smp)\<rparr>"
proof -
  have m: "take 8 (c_str magic) = magic"
    by (simp add: c_str_def length_magic)
  have lq: "unat (of_nat (length (pqueries smp)) :: u64) = length (pqueries smp)"
    using fit by (simp add: sizes_fit_def unat_of_nat_u64)
  have ts: "length (write_tree (sample_tree smp)) < 2 ^ 64"
    using fit by (simp add: sizes_fit_def)
  have e64: "edge_count (sample_tree smp) < 2 ^ 64"
    using fit by (simp add: sizes_fit_def)
  have fits: "\<forall>pqry \<in> set (pqueries smp). pquery_sizes_fit pqry \<and>
      (\<forall>place \<in> set (placements pqry).
         belongs_to_edge (sample_tree smp) (placement_edge place))"
    using fit on by (simp add: sizes_fit_def placements_on_tree_def)
  have pq: "load_pqueries t' (length (pqueries smp)) (concat (map save_pquery (pqueries smp)) @ [])
         = Inr (map (reloaded_pquery t') (pqueries smp), [])"
    by (rule load_save_pqueries[OF fits ec e64])
  show ?thesis
    using pq
    by (simp add: load_def save_def m get_raw_string_append length_magic strncmp_magic
        get_uchar_def get_string_put_string[OF ts] rt get_int_put_int lq finished_def)
qed

lemma rbind_Inr_iff: "rbind m f = Inr y \<longleftrightarrow> (\<exists>x. m = Inr x \<and> f x = Inr y)"
  by (cases m) (auto simp: rbind_def)

lemma get_raw_string_more:
  "get_raw_string n inp = Inr (a, r) \<Longrightarrow> get_raw_string n (inp @ x) = Inr (a, r @ x)"
  by (auto simp: get_raw_string_def split: if_splits)

lemma get_uchar_more:
  "get_uchar inp = Inr (a, r) \<Longrightarrow> get_uchar (inp @ x) = Inr (a, r @ x)"
  by (auto simp: get_uchar_def split: list.splits)

lemma get_int_more:
  assumes "get_int inp = Inr (a, r)"
  shows "get_int (inp @ x) = Inr (a, r @ x)"
proof -
  from assms obtain bs where b: "get_raw_string 8 inp = Inr (bs, r)" and "a = of_nat (le_value bs)"
    by (auto simp: get_int_def rbind_Inr_iff)
  then show ?thesis
    by (simp add: get_int_def get_raw_string_more[OF b])
qed

lemma get_float_more:
  assumes "get_float inp = Inr (a, r)"
  shows "get_float (inp @ x) = Inr (a, r @ x)"
proof -
  from assms obtain bs where b: "get_raw_string 8 inp = Inr (bs, r)" and "a = of_nat (le_value bs)"
    by (auto simp: get_float_def rbind_Inr_iff)
  then show ?thesis
    by (simp add: get_float_def get_raw_string_more[OF b])
qed

lemma get_string_more:
  assumes "get_string inp = Inr (a, r)"
  shows "get_string (inp @ x) = Inr (a, r @ x)"
proof -
  from assms obtain len i1 where a: "get_int inp = Inr (len, i1)"
    and b: "get_raw_string (unat len) i1 = Inr (a, r)"
    by (auto simp: get_string_def rbind_Inr_iff)
  show ?thesis
    by (simp add: get_string_def get_int_more[OF a] get_raw_string_more[OF b])
qed

lemma load_placements_more:
  "load_placements t n inp = Inr (ps, r) \<Longrightarrow> load_placements t n (inp @ x) = Inr (ps, r @ x)"
proof (induction n arbitrary: inp ps r)
  case 0
  then show ?case by simp
next
  case (Suc n)
  from Suc.prems obtain e i1 where a: "get_int inp = Inr (e, i1)"
    by (auto simp: rbind_Inr_iff)
  from Suc.prems a obtain ed where b: "edge_at t (unat e) = Inr ed"
    by (auto simp: rbind_Inr_iff)
  from Suc.prems a b obtain l i2 where c: "get_float i1 = Inr (l, i2)"
    by (auto simp: rbind_Inr_iff)
  from Suc.prems a b c obtain w i3 where d: "get_float i2 = Inr (w, i3)"
    by (auto simp: rbind_Inr_iff)
  from Suc.prems a b c d obtain pr i4 where e: "get_float i3 = Inr (pr, i4)"
    by (auto simp: rbind_Inr_iff)
  from Suc.prems a b c d e obtain pe i5 where f: "get_float i4 = Inr (pe, i5)"
    by (auto simp: rbind_Inr_iff)
  from Suc.prems a b c d e f obtain ps' i6 where g: "load_placements t n i5 = Inr (ps', i6)"
    by (auto simp: rbind_Inr_iff)
  from Suc.prems a b c d e f g show ?case
    by (simp add: get_int_more[OF a] get_float_more[OF c] get_float_more[OF d]
        get_float_more[OF e] get_float_more[OF f] Suc.IH[OF g])
qed

lemma load_names_more:
  "load_names n inp = Inr (ns, r) \<Longrightarrow> load_names n (inp @ x) = Inr (ns, r @ x)"
proof (induction n arbitrary: inp ns r)
  case 0
  then show ?case by simp
next
  case (Suc n)
  from Suc.prems obtain str i1 where a: "get_string inp = Inr (str, i1)"
    by (auto simp: rbind_Inr_iff)
  from Suc.prems a obtain m i2 where b: "get_float i1 = Inr (m, i2)"
    by (auto simp: rbind_Inr_iff)
  from Suc.prems a b obtain ns' i3 where c: "load_names n i2 = Inr (ns', i3)"
    by (auto simp: rbind_Inr_iff)
  from Suc.prems a b c show ?case
    by (simp add: get_string_more[OF a] get_float_more[OF b] Suc.IH[OF c])
qed

lemma load_pqueries_more:
  "load_pqueries t n inp = Inr (qs, r) \<Longrightarrow> load_pqueries t n (inp @ x) = Inr (qs, r @ x)"
proof (induction n arbitrary: inp qs r)
  case 0
  then show ?case by simp
next
  case (Suc n)
  from Suc.prems obtain np i1 where a: "get_int inp = Inr (np, i1)"
    by (auto simp: rbind_Inr_iff)
  from Suc.prems a obtain ps i2 where b: "load_placements t (unat np) i1 = Inr (ps, i2)"
    by (auto simp: rbind_Inr_iff)
  from Suc.prems a b obtain nn i3 where c: "get_int i2 = Inr (nn, i3)"
    by (auto simp: rbind_Inr_iff)
  from Suc.prems a b c obtain ns i4 where d: "load_names (unat nn) i3 = Inr (ns, i4)"
    by (auto simp: rbind_Inr_iff)
  from Suc.prems a b c d obtain qs' i5 where e: "load_pqueries t n i4 = Inr (qs', i5)"
    by (auto simp: rbind_Inr_iff)
  from Suc.prems a b c d e show ?case
    by (simp add: get_int_more[OF a] load_placements_more[OF b] get_int_more[OF c]
        load_names_more[OF d] Suc.IH[OF e])
qed

lemma load_trailing:
  assumes "load rd inp = Inr smp" and "extra \<noteq> []"
  shows "load rd (inp @ extra) = Inl TruncatedInputError"
proof -
  from assms(1) obtain mgc i1 where a: "get_raw_string 8 inp = Inr (mgc, i1)"
    by (auto simp: load_def rbind_Inr_iff)
  from assms(1) a have m: "strncmp_eq (c_str mgc) (c_str magic) 8"
    by (auto simp: load_def split: if_splits)
  from assms(1) a m obtain ver i2 where b: "get_uchar i1 = Inr (ver, i2)"
    by (auto simp: load_def rbind_Inr_iff)
  from assms(1) a m b have v: "ver = version"
    by (auto simp: load_def split: if_splits)
  from assms(1) a m b v obtain ts i3 where c: "get_string i2 = Inr (ts, i3)"
    by (auto simp: load_def rbind_Inr_iff)
  from assms(1) a m b v c obtain t where d: "rd ts = Inr t"
    by (auto simp: load_def rbind_Inr_iff)
  from assms(1) a m b v c d obtain nq i4 where e: "get_int i3 = Inr (nq, i4)"
    by (auto simp: load_def rbind_Inr_iff)
  from assms(1) a m b v c d e obtain qs i5 where f: "load_pqueries t (unat nq) i4 = Inr (qs, i5)"
    by (auto simp: load_def rbind_Inr_iff)
  from assms(1) a m b v c d e f have g: "i5 = []"
    by (auto simp: load_def finished_def split: if_splits)
  show ?thesis
    using assms(2) m v d g
    by (simp add: load_def get_raw_string_more[OF a] get_uchar_more[OF b]
        get_string_more[OF c] get_int_more[OF e] load_pqueries_more[OF f] finished_def)
qed


lemma load_format_error:
  "length mgc = 8 \<Longrightarrow> take 7 mgc \<noteq> take 7 magic \<Longrightarrow> load rd (mgc @ rest) = Inl FormatError"
  by (simp add: load_def get_raw_string_append strncmp_magic)

lemma load_version_error:
  "length mgc = 8 \<Longrightarrow> take 7 mgc = take 7 magic \<Longrightarrow> ver \<noteq> version \<Longrightarrow>
   load rd (mgc @ ver # rest) = Inl VersionError"
  by (simp add: load_def get_raw_string_append strncmp_magic get_uchar_def)

lemma load_header_only_seven:
  "length mgc = 8 \<Longrightarrow> take 7 mgc = take 7 magic \<Longrightarrow> load rd (mgc @ rest) = load rd (magic @ rest)"
  by (simp add: load_def get_raw_string_append length_magic strncmp_magic)

lemma total_placement_count_reloaded:
  "total_placement_count \<lparr>sample_tree = t', pqueries = map (reloaded_pquery t') qs\<rparr>
   = total_placement_count \<lparr>sample_tree = t, pqueries = qs\<rparr>"
  by (simp add: total_placement_count_def reloaded_pquery_def comp_def)

lemma placement_numbers_reloaded:
  "placement_numbers (reloaded_placement t place) = placement_numbers place"
  by (simp add: placement_numbers_def reloaded_placement_def)


lemma example_sample_ok:
  "example_reader (example_writer (sample_tree example_sample)) = Inr cherry_tree"
  "edge_count cherry_tree = edge_count (sample_tree example_sample)"
  "placements_on_tree example_sample"
  "sizes_fit example_writer example_sample"
  by (simp_all add: example_reader_def example_writer_def example_sample_def
      placements_on_tree_def sizes_fit_def pquery_sizes_fit_def belongs_to_edge_def
      edge_count_def cherry_tree_def example_newick_def)

lemma strncmp_wrong_magic:
  "strncmp_eq (c_str [0x42, 0x50, 0x4C, 0x41, 0x43, 0x45, 0x00, 0x01]) (c_str magic) 8"
  by (subst strncmp_magic) (simp_all add: magic_def)


section \<open>Links around a node\<close>

lemma map_upt_Suc_shift: "map f [0..<Suc k] = f 0 # map (\<lambda>j. f (Suc j)) [0..<k]"
  by (simp add: map_upt_Suc del: upt_Suc)

lemma ring_loop_funpow:
  assumes "(nxt t ^^ k) c = start" and "\<forall>j<k. (nxt t ^^ j) c \<noteq> start"
  shows "ring_loop t start c acc = Some (acc @ map (\<lambda>j. (nxt t ^^ j) c) [0..<k])"
  using assms
proof (induction k arbitrary: c acc)
  case 0
  then show ?case
    by (subst ring_loop.simps) simp
next
  case (Suc k)
  have ne: "c \<noteq> start"
    using Suc.prems(2) by (metis funpow_0 zero_less_Suc)
  have a: "(nxt t ^^ k) (nxt t c) = start"
    using Suc.prems(1) by (simp add: funpow_swap1)
  have b: "\<forall>j<k. (nxt t ^^ j) (nxt t c) \<noteq> start"
  proof (intro allI impI)
    fix j assume "j < k"
    then have "(nxt t ^^ Suc j) c \<noteq> start"
      using Suc.prems(2) by (metis Suc_less_eq)
    then show "(nxt t ^^ j) (nxt t c) \<noteq> start"
      by (simp add: funpow_swap1)
  qed
  have "ring_loop t start c acc = ring_loop t start (nxt t c) (acc @ [c])"
    using ne by (subst ring_loop.simps) simp
  also have "\<dots> = Some ((acc @ [c]) @ map (\<lambda>j. (nxt t ^^ j) (nxt t c)) [0..<k])"
    by (rule Suc.IH[OF a b])
  also have "(acc @ [c]) @ map (\<lambda>j. (nxt t ^^ j) (nxt t c)) [0..<k]
             = acc @ map (\<lambda>j. (nxt t ^^ j) c) [0..<Suc k]"
    by (simp add: map_upt_Suc_shift funpow_swap1 del: upt_Suc)
  finally show ?case .
qed

lemma ring_loop_SomeD:
  assumes "ring_loop t start c acc = Some r"
  shows "\<exists>k. (nxt t ^^ k) c = start \<and> (\<forall>j<k. (nxt t ^^ j) c \<noteq> start) \<and>
             r = acc @ map (\<lambda>j. (nxt t ^^ j) c) [0..<k]"
proof -
  let ?P = "\<lambda>t start c acc r. \<exists>k. (nxt t ^^ k) c = start \<and> (\<forall>j<k. (nxt t ^^ j) c \<noteq> start) \<and>
             r = acc @ map (\<lambda>j. (nxt t ^^ j) c) [0..<k]"
  show ?thesis
  proof (rule ring_loop.raw_induct[where P = ?P, OF _ assms])
    fix f t start c acc r
    assume IH: "\<And>t' s' c' a' y. f t' s' c' a' = Some y \<Longrightarrow> ?P t' s' c' a' y"
      and body: "(if c \<noteq> start then f t start (nxt t c) (acc @ [c]) else Some acc) = Some r"
    show "?P t start c acc r"
    proof (cases "c = start")
      case True
      with body have "r = acc" by simp
      with True show ?thesis
        by (intro exI[of _ 0]) simp
    next
      case False
      with body have "f t start (nxt t c) (acc @ [c]) = Some r"
        by simp
      from IH[OF this] obtain k where k: "(nxt t ^^ k) (nxt t c) = start"
        "\<forall>j<k. (nxt t ^^ j) (nxt t c) \<noteq> start"
        "r = (acc @ [c]) @ map (\<lambda>j. (nxt t ^^ j) (nxt t c)) [0..<k]"
        by blast
      have "(nxt t ^^ Suc k) c = start"
        using k(1) by (simp add: funpow_swap1)
      moreover have "\<forall>j<Suc k. (nxt t ^^ j) c \<noteq> start"
      proof (intro allI impI)
        fix j assume j: "j < Suc k"
        show "(nxt t ^^ j) c \<noteq> start"
        proof (cases j)
          case 0
          with False show ?thesis by simp
        next
          case (Suc i)
          with j k(2) have "(nxt t ^^ i) (nxt t c) \<noteq> start" by simp
          with Suc show ?thesis by (simp add: funpow_swap1)
        qed
      qed
      moreover have "r = acc @ map (\<lambda>j. (nxt t ^^ j) c) [0..<Suc k]"
        using k(3) by (simp add: map_upt_Suc_shift funpow_swap1 del: upt_Suc)
      ultimately show ?thesis
        by blast
    qed
  qed
qed

text \<open>The links after \<open>l\<close> around its node, when the list closes after \<open>Suc k\<close> steps.\<close>

lemma ring_rest_SomeD:
  assumes "ring_rest t l = Some cs"
  shows "\<exists>k. (nxt t ^^ Suc k) l = l \<and> (\<forall>j. 0 < j \<and> j \<le> k \<longrightarrow> (nxt t ^^ j) l \<noteq> l) \<and>
             cs = map (\<lambda>j. (nxt t ^^ Suc j) l) [0..<k]"
proof -
  from ring_loop_SomeD[OF assms[unfolded ring_rest_def]]
  obtain k where k: "(nxt t ^^ k) (nxt t l) = l" "\<forall>j<k. (nxt t ^^ j) (nxt t l) \<noteq> l"
    "cs = [] @ map (\<lambda>j. (nxt t ^^ j) (nxt t l)) [0..<k]"
    by blast
  have "(nxt t ^^ Suc k) l = l"
    using k(1) by (simp add: funpow_swap1)
  moreover have "\<forall>j. 0 < j \<and> j \<le> k \<longrightarrow> (nxt t ^^ j) l \<noteq> l"
  proof (intro allI impI)
    fix j assume j: "0 < j \<and> j \<le> k"
    then obtain i where i: "j = Suc i" "i < k"
      by (cases j) auto
    with k(2) have "(nxt t ^^ i) (nxt t l) \<noteq> l" by simp
    with i show "(nxt t ^^ j) l \<noteq> l" by (simp add: funpow_swap1)
  qed
  moreover have "cs = map (\<lambda>j. (nxt t ^^ Suc j) l) [0..<k]"
    using k(3) by (simp add: funpow_swap1)
  ultimately show ?thesis by blast
qed

lemma ring_rest_funpow:
  assumes "(nxt t ^^ Suc k) l = l" and "\<forall>j. 0 < j \<and> j \<le> k \<longrightarrow> (nxt t ^^ j) l \<noteq> l"
  shows "ring_rest t l = Some (map (\<lambda>j. (nxt t ^^ Suc j) l) [0..<k])"
proof -
  have a: "(nxt t ^^ k) (nxt t l) = l"
    using assms(1) by (simp add: funpow_swap1)
  have b: "\<forall>j<k. (nxt t ^^ j) (nxt t l) \<noteq> l"
  proof (intro allI impI)
    fix j assume "j < k"
    then have "0 < Suc j \<and> Suc j \<le> k" by simp
    with assms(2) have "(nxt t ^^ Suc j) l \<noteq> l"
      by blast
    then show "(nxt t ^^ j) (nxt t l) \<noteq> l"
      by (simp add: funpow_swap1)
  qed
  show ?thesis
    unfolding ring_rest_def using ring_loop_funpow[OF a b, of "[]"]
    by (simp add: funpow_swap1)
qed

section \<open>Degrees\<close>

lemma degree_loop_funpow:
  assumes "(nxt t ^^ Suc k) l = start" and "\<forall>j. 0 < j \<and> j \<le> k \<longrightarrow> (nxt t ^^ j) l \<noteq> start"
  shows "degree_loop t start l d = Some (d + Suc k)"
  using assms
proof (induction k arbitrary: l d)
  case 0
  then show ?case
    by (subst degree_loop.simps) simp
next
  case (Suc k)
  have "0 < (1::nat) \<and> 1 \<le> Suc k" by simp
  with Suc.prems(2) have ne: "(nxt t ^^ 1) l \<noteq> start"
    by blast
  have a: "(nxt t ^^ Suc k) (nxt t l) = start"
    using Suc.prems(1) by (simp add: funpow_swap1)
  have b: "\<forall>j. 0 < j \<and> j \<le> k \<longrightarrow> (nxt t ^^ j) (nxt t l) \<noteq> start"
  proof (intro allI impI)
    fix j assume "0 < j \<and> j \<le> k"
    then have "0 < Suc j \<and> Suc j \<le> Suc k" by simp
    with Suc.prems(2) have "(nxt t ^^ Suc j) l \<noteq> start"
      by blast
    then show "(nxt t ^^ j) (nxt t l) \<noteq> start"
      by (simp add: funpow_swap1)
  qed
  have "degree_loop t start l d = degree_loop t start (nxt t l) (d + 1)"
    using ne by (subst degree_loop.simps) simp
  also have "\<dots> = Some (d + 1 + Suc k)"
    by (rule Suc.IH[OF a b])
  finally show ?case by simp
qed

lemma degree_ring_rest:
  assumes "ring_rest t (primary_link t n) = Some cs"
  shows "degree t n = Some (Suc (length cs))"
proof -
  from ring_rest_SomeD[OF assms] obtain k where
    k: "(nxt t ^^ Suc k) (primary_link t n) = primary_link t n"
       "\<forall>j. 0 < j \<and> j \<le> k \<longrightarrow> (nxt t ^^ j) (primary_link t n) \<noteq> primary_link t n"
       "cs = map (\<lambda>j. (nxt t ^^ Suc j) (primary_link t n)) [0..<k]"
    by blast
  have "length cs = k"
    using k(3) by simp
  then show ?thesis
    unfolding degree_def using degree_loop_funpow[OF k(1,2), of 0] by simp
qed

text \<open>
  When \<open>degree\<close> returns, following \<open>next\<close> from the primary link of the node comes
  back to it after exactly as many steps, and not before.
\<close>

lemma degree_loop_SomeD:
  assumes "degree_loop t start l d = Some r"
  shows "\<exists>k. r = d + Suc k \<and> (nxt t ^^ Suc k) l = start \<and>
             (\<forall>j. 0 < j \<and> j \<le> k \<longrightarrow> (nxt t ^^ j) l \<noteq> start)"
proof -
  let ?P = "\<lambda>t start l d r. \<exists>k. r = d + Suc k \<and> (nxt t ^^ Suc k) l = start \<and>
             (\<forall>j. 0 < j \<and> j \<le> k \<longrightarrow> (nxt t ^^ j) l \<noteq> start)"
  show ?thesis
  proof (rule degree_loop.raw_induct[where P = ?P, OF _ assms])
    fix f t start l d r
    assume IH: "\<And>t' s' l' d' y. f t' s' l' d' = Some y \<Longrightarrow> ?P t' s' l' d' y"
      and body: "(if nxt t l \<noteq> start then f t start (nxt t l) (d + 1) else Some (d + 1)) = Some r"
    show "?P t start l d r"
    proof (cases "nxt t l = start")
      case True
      with body have "r = d + Suc 0" by simp
      with True show ?thesis
        by (intro exI[of _ 0]) auto
    next
      case False
      with body have "f t start (nxt t l) (d + 1) = Some r"
        by simp
      from IH[OF this] obtain k where k: "r = d + 1 + Suc k"
        "(nxt t ^^ Suc k) (nxt t l) = start"
        "\<forall>j. 0 < j \<and> j \<le> k \<longrightarrow> (nxt t ^^ j) (nxt t l) \<noteq> start"
        by blast
      have "(nxt t ^^ Suc (Suc k)) l = start"
        using k(2) by (simp add: funpow_swap1)
      moreover have "\<forall>j. 0 < j \<and> j \<le> Suc k \<longrightarrow> (nxt t ^^ j) l \<noteq> start"
      proof (intro allI impI)
        fix j assume j: "0 < j \<and> j \<le> Suc k"
        then obtain i where i: "j = Suc i" "i \<le> k"
          by (cases j) auto
        show "(nxt t ^^ j) l \<noteq> start"
        proof (cases "i = 0")
          case True
          with i False show ?thesis by simp
        next
          case ne: False
          with i k(3) have "(nxt t ^^ i) (nxt t l) \<noteq> start" by simp
          with i show ?thesis by (simp add: funpow_swap1)
        qed
      qed
      moreover have "r = d + Suc (Suc k)"
        using k(1) by simp
      ultimately show ?thesis
        by blast
    qed
  qed
qed

lemma degree_SomeD:
  assumes "degree t n = Some d"
  shows "0 < d \<and> (nxt t ^^ d) (primary_link t n) = primary_link t n \<and>
         (\<forall>j. 0 < j \<and> j < d \<longrightarrow> (nxt t ^^ j) (primary_link t n) \<noteq> primary_link t n)"
proof -
  from degree_loop_SomeD[OF assms[unfolded degree_def]]
  obtain k where k: "d = 0 + Suc k"
    "(nxt t ^^ Suc k) (primary_link t n) = primary_link t n"
    "\<forall>j. 0 < j \<and> j \<le> k \<longrightarrow> (nxt t ^^ j) (primary_link t n) \<noteq> primary_link t n"
    by blast
  then show ?thesis
    by auto
qed

lemma degree_leaf:
  assumes "is_leaf t n"
  shows "degree t n = Some 1"
  using assms unfolding degree_def is_leaf_def is_leaf_link_def
  by (subst degree_loop.simps) simp

section \<open>Consequences of validity\<close>

lemma valid_linkD:
  assumes "valid_links t" and "l < link_count t"
  shows "nxt t l < link_count t" and "outr t l < link_count t"
    and "nod t l < node_count t" and "edg t l < edge_count t"
    and "nod t (nxt t l) = nod t l" and "outr t (outr t l) = l"
    and "on_ring t (primary_link t (nod t l)) l"
    and "l = edge_primary_link t (edg t l) \<or> l = edge_secondary_link t (edg t l)"
    and "tree_behind (link_count t) t l"
  using assms by (simp_all add: valid_links_def)

lemma valid_nodeD:
  assumes "valid_nodes t" and "n < node_count t"
  shows "primary_link t n < link_count t" and "nod t (primary_link t n) = n"
    and "n = root_node t \<or> edge_secondary_link t (edg t (primary_link t n)) = primary_link t n"
  using assms by (simp_all add: valid_nodes_def)

lemma valid_edgeD:
  assumes "valid_edges t" and "e < edge_count t"
  shows "edge_primary_link t e < link_count t" and "edge_secondary_link t e < link_count t"
    and "edg t (edge_primary_link t e) = e" and "edg t (edge_secondary_link t e) = e"
    and "outr t (edge_primary_link t e) = edge_secondary_link t e"
    and "edge_primary_link t e \<noteq> edge_secondary_link t e"
    and "primary_link t (nod t (edge_secondary_link t e)) = edge_secondary_link t e"
  using assms by (simp_all add: valid_edges_def)

lemma nxt_funpow_valid:
  assumes "valid_links t" and "l < link_count t"
  shows "(nxt t ^^ j) l < link_count t \<and> nod t ((nxt t ^^ j) l) = nod t l"
proof (induction j)
  case 0
  show ?case using assms(2) by simp
next
  case (Suc j)
  then show ?case
    using valid_linkD(1,5)[OF assms(1), of "(nxt t ^^ j) l"] by simp
qed

lemma funpow_cycle_distinct:
  assumes c: "(f ^^ Suc k) x = x" and f: "\<forall>j. 0 < j \<and> j \<le> k \<longrightarrow> (f ^^ j) x \<noteq> x"
  shows "distinct (map (\<lambda>j. (f ^^ j) x) [0..<Suc k])"
proof -
  have "inj_on (\<lambda>j. (f ^^ j) x) {0..<Suc k}"
  proof (rule linorder_inj_onI)
    fix i j assume ij: "i < j" and i: "i \<in> {0..<Suc k}" and j: "j \<in> {0..<Suc k}"
    show "(f ^^ i) x \<noteq> (f ^^ j) x"
    proof
      assume e: "(f ^^ i) x = (f ^^ j) x"
      have "(f ^^ (Suc k - j + i)) x = (f ^^ (Suc k - j)) ((f ^^ i) x)"
        by (simp add: funpow_add)
      also have "\<dots> = (f ^^ (Suc k - j)) ((f ^^ j) x)"
        by (simp add: e)
      also have "\<dots> = (f ^^ (Suc k - j + j)) x"
        by (simp add: funpow_add)
      also have "\<dots> = x"
        using j c by simp
      finally have "(f ^^ (Suc k - j + i)) x = x" .
      moreover have "0 < Suc k - j + i \<and> Suc k - j + i \<le> k"
        using ij j by auto
      ultimately show False
        using f by blast
    qed
  next
    fix i j :: nat
    show "i \<le> j \<or> j \<le> i"
      by (rule linear)
  qed
  then show ?thesis
    by (simp add: distinct_map del: upt_Suc)
qed

lemma ring_rest_primary:
  assumes "valid_links t" and "valid_nodes t" and "n < node_count t"
  shows "\<exists>cs. ring_rest t (primary_link t n) = Some cs"
proof -
  have "on_ring t (primary_link t (nod t (primary_link t n))) (primary_link t n)"
    by (rule valid_linkD(7)[OF assms(1) valid_nodeD(1)[OF assms(2,3)]])
  then have "on_ring t (primary_link t n) (primary_link t n)"
    by (simp add: valid_nodeD(2)[OF assms(2,3)])
  then show ?thesis
    by (auto simp: on_ring_def split: option.splits)
qed

lemma ring_links_of_node:
  assumes vl: "valid_links t" and vn: "valid_nodes t" and n: "n < node_count t"
    and r: "ring_rest t (primary_link t n) = Some cs"
  shows "set (primary_link t n # cs) = {l. l < link_count t \<and> nod t l = n}"
    and "distinct (primary_link t n # cs)"
proof -
  let ?p = "primary_link t n"
  from ring_rest_SomeD[OF r] obtain k where
    k: "(nxt t ^^ Suc k) ?p = ?p" "\<forall>j. 0 < j \<and> j \<le> k \<longrightarrow> (nxt t ^^ j) ?p \<noteq> ?p"
       "cs = map (\<lambda>j. (nxt t ^^ Suc j) ?p) [0..<k]"
    by blast
  have eq: "?p # cs = map (\<lambda>j. (nxt t ^^ j) ?p) [0..<Suc k]"
    unfolding k(3) by (simp add: map_upt_Suc_shift del: upt_Suc funpow.simps)
  show "distinct (?p # cs)"
    unfolding eq by (rule funpow_cycle_distinct[OF k(1,2)])
  have p: "?p < link_count t" "nod t ?p = n"
    using valid_nodeD[OF vn n] by simp_all
  show "set (?p # cs) = {l. l < link_count t \<and> nod t l = n}"
  proof (intro set_eqI iffI)
    fix l assume "l \<in> set (?p # cs)"
    then obtain j where "l = (nxt t ^^ j) ?p"
      unfolding eq by auto
    then show "l \<in> {l. l < link_count t \<and> nod t l = n}"
      using nxt_funpow_valid[OF vl p(1), of j] p(2) by simp
  next
    fix l assume "l \<in> {l. l < link_count t \<and> nod t l = n}"
    then have l: "l < link_count t" "nod t l = n" by simp_all
    have "on_ring t ?p l"
      using valid_linkD(7)[OF vl l(1)] l(2) by simp
    then show "l \<in> set (?p # cs)"
      using r by (auto simp: on_ring_def)
  qed
qed

lemma degree_card:
  assumes vl: "valid_links t" and vn: "valid_nodes t" and n: "n < node_count t"
  shows "degree t n = Some (card {l. l < link_count t \<and> nod t l = n})"
proof -
  from ring_rest_primary[OF assms] obtain cs where r: "ring_rest t (primary_link t n) = Some cs"
    by blast
  have "card {l. l < link_count t \<and> nod t l = n} = card (set (primary_link t n # cs))"
    by (simp only: ring_links_of_node(1)[OF assms r])
  also have "\<dots> = length (primary_link t n # cs)"
    by (rule distinct_card[OF ring_links_of_node(2)[OF assms r]])
  finally show ?thesis
    using degree_ring_rest[OF r] by simp
qed

lemma sum_degrees_card:
  assumes vl: "valid_links t" and vn: "valid_nodes t" and ns: "\<forall>n \<in> set ns. n < node_count t"
  shows "sum_degrees t ns = Some (sum_list (map (\<lambda>n. card {l. l < link_count t \<and> nod t l = n}) ns))"
  using ns
proof (induction ns)
  case Nil
  then show ?case by simp
next
  case (Cons n ns)
  then show ?case
    by (simp add: degree_card[OF vl vn])
qed

lemma card_fibres:
  assumes "\<forall>x<m. g x < (n::nat)"
  shows "(\<Sum>y<n. card {x. x < m \<and> g x = y}) = m"
proof -
  have "(\<Sum>y\<in>{..<n}. sum (\<lambda>x. 1::nat) {x \<in> {..<m}. g x = y}) = sum (\<lambda>x. 1) {..<m}"
  proof (rule sum.group)
    show "finite {..<m}" by simp
    show "finite {..<n}" by simp
    show "g ` {..<m} \<subseteq> {..<n}" using assms by auto
  qed
  moreover have "{x \<in> {..<m}. g x = y} = {x. x < m \<and> g x = y}" for y
    by auto
  ultimately show ?thesis
    by simp
qed

lemma links_of_edge:
  assumes vl: "valid_links t" and ve: "valid_edges t" and e: "e < edge_count t"
  shows "card {l. l < link_count t \<and> edg t l = e} = 2"
proof -
  have "{l. l < link_count t \<and> edg t l = e} = {edge_primary_link t e, edge_secondary_link t e}"
  proof (intro set_eqI iffI)
    fix l assume "l \<in> {l. l < link_count t \<and> edg t l = e}"
    then have "l < link_count t" "edg t l = e" by simp_all
    then show "l \<in> {edge_primary_link t e, edge_secondary_link t e}"
      using valid_linkD(8)[OF vl, of l] by auto
  next
    fix l assume "l \<in> {edge_primary_link t e, edge_secondary_link t e}"
    then show "l \<in> {l. l < link_count t \<and> edg t l = e}"
      using valid_edgeD(1-4)[OF ve e] by auto
  qed
  then show ?thesis
    using valid_edgeD(6)[OF ve e] by simp
qed

lemma link_count_edges:
  assumes vl: "valid_links t" and ve: "valid_edges t"
  shows "link_count t = 2 * edge_count t"
proof -
  have "(\<Sum>e<edge_count t. card {l. l < link_count t \<and> edg t l = e}) = link_count t"
    by (rule card_fibres) (use valid_linkD(4)[OF vl] in simp)
  moreover have "(\<Sum>e<edge_count t. card {l. l < link_count t \<and> edg t l = e})
                 = (\<Sum>e<edge_count t. 2)"
    by (rule sum.cong) (simp_all add: links_of_edge[OF vl ve])
  ultimately show ?thesis
    by simp
qed

lemma sum_degrees_valid:
  assumes vl: "valid_links t" and vn: "valid_nodes t" and ve: "valid_edges t"
  shows "sum_degrees t [0..<node_count t] = Some (2 * edge_count t)"
proof -
  have "sum_degrees t [0..<node_count t]
        = Some (sum_list (map (\<lambda>n. card {l. l < link_count t \<and> nod t l = n}) [0..<node_count t]))"
    by (rule sum_degrees_card[OF vl vn]) simp
  also have "sum_list (map (\<lambda>n. card {l. l < link_count t \<and> nod t l = n}) [0..<node_count t])
        = (\<Sum>n<node_count t. card {l. l < link_count t \<and> nod t l = n})"
    by (simp add: interv_sum_list_conv_sum_set_nat atLeast0LessThan)
  also have "\<dots> = link_count t"
    by (rule card_fibres) (use valid_linkD(3)[OF vl] in simp)
  finally show ?thesis
    by (simp add: link_count_edges[OF vl ve])
qed

lemma valid_reference_tree: "valid_topology reference_tree"
  by code_simp

lemma valid_rooted_tree: "valid_topology rooted_tree"
  by code_simp

lemma valid_cherry_tree: "valid_topology cherry_tree"
  by code_simp

section \<open>Paths to the root\<close>

lemma ring_contains_funpow:
  assumes "ring_rest t x = Some cs"
  shows "(nxt t ^^ m) x \<in> set (x # cs)"
proof -
  from ring_rest_SomeD[OF assms] obtain k where
    k: "(nxt t ^^ Suc k) x = x" "cs = map (\<lambda>j. (nxt t ^^ Suc j) x) [0..<k]"
    by blast
  have e: "(nxt t ^^ m) x = (nxt t ^^ (m mod Suc k)) x"
    by (rule funpow_mod_eq[OF k(1), symmetric])
  show ?thesis
  proof (cases "m mod Suc k")
    case 0
    with e show ?thesis by simp
  next
    case (Suc j)
    have "j < k"
      using Suc mod_less_divisor[of "Suc k" m] by simp
    then have "(nxt t ^^ Suc j) x \<in> set cs"
      unfolding k(2) by (auto simp del: funpow.simps)
    with e Suc show ?thesis by simp
  qed
qed

lemma tree_behind_ring_rest:
  assumes "tree_behind k t l"
  shows "\<exists>cs. ring_rest t l = Some cs \<and> (\<forall>c \<in> set cs. tree_behind (k - 1) t (outr t c))"
  using assms by (cases k) (auto split: option.splits)

text \<open>The primary link of the node of a link is among the links around this node.\<close>

lemma primary_on_ring_of:
  assumes vl: "valid_links t" and vn: "valid_nodes t" and x: "x < link_count t"
    and r: "ring_rest t x = Some cs"
  shows "primary_link t (nod t x) \<in> set (x # cs)"
proof -
  define p where "p = primary_link t (nod t x)"
  have "on_ring t p x"
    unfolding p_def by (rule valid_linkD(7)[OF vl x])
  then obtain ps where ps: "ring_rest t p = Some ps" and m: "x = p \<or> x \<in> set ps"
    by (auto simp: on_ring_def split: option.splits)
  from ring_rest_SomeD[OF ps] obtain k where
    k: "(nxt t ^^ Suc k) p = p" "ps = map (\<lambda>j. (nxt t ^^ Suc j) p) [0..<k]"
    by blast
  from m have "p \<in> set (x # cs)"
  proof
    assume "x = p"
    then show ?thesis by simp
  next
    assume "x \<in> set ps"
    then obtain i where i: "i < k" "x = (nxt t ^^ Suc i) p"
      unfolding k(2) by (auto simp del: funpow.simps)
    have "(nxt t ^^ (k - i)) ((nxt t ^^ Suc i) p) = (nxt t ^^ (k - i + Suc i)) p"
      by (simp only: funpow_add o_apply)
    also have "k - i + Suc i = Suc k"
      using i(1) by simp
    finally have "(nxt t ^^ (k - i)) x = p"
      using k(1) i(2) by simp
    then show ?thesis
      using ring_contains_funpow[OF r, of "k - i"] by simp
  qed
  then show ?thesis
    by (simp add: p_def)
qed

text \<open>
  The outer link of the secondary link of an edge is the primary link of the edge.
\<close>

lemma outr_secondary:
  assumes vl: "valid_links t" and ve: "valid_edges t" and l: "l < link_count t"
    and s: "edge_secondary_link t (edg t l) = l"
  shows "outr t l = edge_primary_link t (edg t l)"
    and "edg t (outr t l) = edg t l"
    and "outr t l \<noteq> l"
proof -
  let ?e = "edg t l"
  have e: "?e < edge_count t"
    by (rule valid_linkD(4)[OF vl l])
  have "outr t (outr t (edge_primary_link t ?e)) = edge_primary_link t ?e"
    by (rule valid_linkD(6)[OF vl valid_edgeD(1)[OF ve e]])
  then show a: "outr t l = edge_primary_link t ?e"
    using valid_edgeD(5)[OF ve e] s by simp
  show "edg t (outr t l) = ?e"
    unfolding a by (rule valid_edgeD(3)[OF ve e])
  show "outr t l \<noteq> l"
    using a valid_edgeD(6)[OF ve e] s by simp
qed

lemma path_to_root_loop_returns:
  assumes vl: "valid_links t" and vn: "valid_nodes t" and ve: "valid_edges t"
    and "cur < link_count t" and "tree_behind k t (outr t cur)"
  shows "\<exists>path. path_to_root_loop t cur acc = Some path"
  using assms(4,5)
proof (induction k arbitrary: cur acc)
  case 0
  then show ?case by simp
next
  case (Suc k)
  show ?case
  proof (cases "edge_secondary_link t (edg t cur) = cur")
    case False
    then show ?thesis
      by (subst path_to_root_loop.simps) simp
  next
    case True
    let ?x = "outr t cur"
    let ?c = "primary_link t (nod t ?x)"
    have x: "?x < link_count t"
      by (rule valid_linkD(2)[OF vl Suc.prems(1)])
    from tree_behind_ring_rest[OF Suc.prems(2)] obtain cs where
      cs: "ring_rest t ?x = Some cs" "\<forall>c \<in> set cs. tree_behind k t (outr t c)"
      by auto
    have c: "?c < link_count t"
      by (rule valid_nodeD(1)[OF vn valid_linkD(3)[OF vl x]])
    have step: "path_to_root_loop t cur acc = path_to_root_loop t ?c (acc @ [cur])"
      using True by (subst path_to_root_loop.simps) simp
    have "?c \<in> set (?x # cs)"
      by (rule primary_on_ring_of[OF vl vn x cs(1)])
    then consider "?c = ?x" | "?c \<in> set cs"
      by auto
    then show ?thesis
    proof cases
      case 1
      have "edge_secondary_link t (edg t ?x) \<noteq> ?x"
        using outr_secondary[OF vl ve Suc.prems(1) True] True by simp
      then have "path_to_root_loop t ?c (acc @ [cur]) = Some ((acc @ [cur]) @ [?c])"
        unfolding 1 by (subst path_to_root_loop.simps) simp
      with step show ?thesis by simp
    next
      case 2
      with cs(2) have "tree_behind k t (outr t ?c)" by blast
      from Suc.IH[OF c this, of "acc @ [cur]"] step show ?thesis by simp
    qed
  qed
qed

lemma path_to_root_returns:
  assumes vl: "valid_links t" and vn: "valid_nodes t" and ve: "valid_edges t"
    and n: "n < node_count t"
  shows "\<exists>path. path_to_root t n = Some path"
proof -
  have p: "primary_link t n < link_count t"
    by (rule valid_nodeD(1)[OF vn n])
  have "tree_behind (link_count t) t (outr t (primary_link t n))"
    by (rule valid_linkD(9)[OF vl valid_linkD(2)[OF vl p]])
  from path_to_root_loop_returns[OF vl vn ve p this] show ?thesis
    by (simp add: path_to_root_def)
qed

lemma lowest_common_ancestor_returns:
  assumes vl: "valid_links t" and vn: "valid_nodes t" and ve: "valid_edges t"
    and a: "a < node_count t" and b: "b < node_count t"
  shows "\<exists>n. lowest_common_ancestor t a b = Some n"
  using path_to_root_returns[OF vl vn ve a] path_to_root_returns[OF vl vn ve b]
  by (auto simp: lowest_common_ancestor_def)

lemma lowest_common_ancestor_same: "lowest_common_ancestor t a a = Some a"
  by (simp add: lowest_common_ancestor_def)

section \<open>Entries of a square matrix\<close>

lemma index_inj:
  assumes "r * n + c = r' * n + c'" and "c < n" and "c' < n"
  shows "r = r' \<and> c = (c'::nat)"
proof -
  have "(r * n + c) div n = r" "(r * n + c) mod n = c"
    using assms(2) by simp_all
  moreover have "(r' * n + c') div n = r'" "(r' * n + c') mod n = c'"
    using assms(3) by simp_all
  ultimately show ?thesis
    using assms(1) by metis
qed

lemma index_bound:
  assumes "r < n" and "c < (n::nat)"
  shows "r * n + c < n * n"
proof -
  have "r * n + c < r * n + n"
    using assms(2) by simp
  also have "\<dots> = Suc r * n"
    by simp
  also have "\<dots> \<le> n * n"
    using assms(1) by (intro mult_le_mono1) simp
  finally show ?thesis .
qed

lemma mat_set_shape:
  "mat_rows (mat_set m r c v) = mat_rows m"
  "mat_cols (mat_set m r c v) = mat_cols m"
  "length (mat_data (mat_set m r c v)) = length (mat_data m)"
  by (simp_all add: mat_set_def)

lemma mat_get_set:
  assumes "mat_cols m = n" and "length (mat_data m) = n * n"
    and "r < n" and "c < n" and "r' < n" and "c' < n"
  shows "mat_get (mat_set m r c v) r' c' = (if r' = r \<and> c' = c then v else mat_get m r' c')"
proof (cases "r' = r \<and> c' = c")
  case True
  then show ?thesis
    using assms index_bound[of r n c] by (simp add: mat_get_def mat_set_def)
next
  case False
  then have "r' * n + c' \<noteq> r * n + c"
    using index_inj[of r' n c' r c] assms(4,6) by blast
  then show ?thesis
    using False assms(1) by (auto simp: mat_get_def mat_set_def)
qed

section \<open>The matrix of all lowest common ancestors\<close>

lemma lcas_cols_returns:
  assumes vl: "valid_links t" and vn: "valid_nodes t" and ve: "valid_edges t"
    and r: "r < node_count t" and cs: "\<forall>c \<in> set cs. c < node_count t"
  shows "\<exists>res'. lcas_cols t r cs res = Some res'"
  using cs
proof (induction cs arbitrary: res)
  case Nil
  then show ?case by simp
next
  case (Cons c cs)
  then have c: "c < node_count t" by simp
  from lowest_common_ancestor_returns[OF vl vn ve r c] obtain lca where
    "lowest_common_ancestor t r c = Some lca" by blast
  then show ?case
    using Cons by simp
qed

lemma mat_get_set_pair:
  assumes "mat_cols res = n" and "length (mat_data res) = n * n"
    and "r < n" and "c < n" and "a < n" and "b < n"
  shows "mat_get (mat_set (mat_set res r c v) c r v) a b =
      (if (a = c \<and> b = r) \<or> (a = r \<and> b = c) then v else mat_get res a b)"
proof -
  have s1: "mat_cols (mat_set res r c v) = n" "length (mat_data (mat_set res r c v)) = n * n"
    using assms(1,2) by (simp_all add: mat_set_shape)
  have e1: "mat_get (mat_set (mat_set res r c v) c r v) a b
        = (if a = c \<and> b = r then v else mat_get (mat_set res r c v) a b)"
    by (rule mat_get_set[OF s1 assms(4,3,5,6)])
  have e2: "mat_get (mat_set res r c v) a b = (if a = r \<and> b = c then v else mat_get res a b)"
    by (rule mat_get_set[OF assms])
  define P where "P \<longleftrightarrow> a = c \<and> b = r"
  define Q where "Q \<longleftrightarrow> a = r \<and> b = c"
  have "(if P then v else if Q then v else mat_get res a b)
        = (if P \<or> Q then v else mat_get res a b)"
    by (cases P; cases Q; simp)
  then show ?thesis
    by (simp only: e1 e2 P_def Q_def)
qed

lemma lcas_cols_shape:
  assumes "lcas_cols t r cs res = Some res'"
  shows "mat_rows res' = mat_rows res \<and> mat_cols res' = mat_cols res \<and>
         length (mat_data res') = length (mat_data res)"
  using assms
proof (induction cs arbitrary: res)
  case Nil
  then show ?case by simp
next
  case (Cons c cs)
  from Cons.prems obtain lca where lca: "lowest_common_ancestor t r c = Some lca"
    by (cases "lowest_common_ancestor t r c") simp_all
  with Cons.prems have "lcas_cols t r cs (mat_set (mat_set res r c lca) c r lca) = Some res'"
    by simp
  from Cons.IH[OF this] show ?case
    by (simp add: mat_set_shape)
qed

lemma lcas_cols_frame:
  assumes "lcas_cols t r cs res = Some res'"
    and "mat_cols res = n" and "length (mat_data res) = n * n"
    and "r < n" and "\<forall>c \<in> set cs. c < n"
    and "a < n" and "b < n"
    and "\<not> (a = r \<and> b \<in> set cs)" and "\<not> (b = r \<and> a \<in> set cs)"
  shows "mat_get res' a b = mat_get res a b"
  using assms(1,2,3,5,8,9)
proof (induction cs arbitrary: res)
  case Nil
  then show ?case by simp
next
  case (Cons c cs)
  from Cons.prems(1) obtain lca where lca: "lowest_common_ancestor t r c = Some lca"
    by (cases "lowest_common_ancestor t r c") simp_all
  define m2 where "m2 = mat_set (mat_set res r c lca) c r lca"
  have rest: "lcas_cols t r cs m2 = Some res'"
    using Cons.prems(1) lca by (simp add: m2_def)
  have c: "c < n" using Cons.prems(4) by simp
  have s2: "mat_cols m2 = n" "length (mat_data m2) = n * n"
    using Cons.prems(2,3) by (simp_all add: m2_def mat_set_shape)
  have cs: "\<forall>c \<in> set cs. c < n" using Cons.prems(4) by simp
  have n1: "\<not> (a = r \<and> b \<in> set cs)" using Cons.prems(5) by simp
  have n2: "\<not> (b = r \<and> a \<in> set cs)" using Cons.prems(6) by simp
  have "mat_get res' a b = mat_get m2 a b"
    by (rule Cons.IH[OF rest s2 cs n1 n2])
  also have "\<dots> = (if (a = c \<and> b = r) \<or> (a = r \<and> b = c) then lca else mat_get res a b)"
    unfolding m2_def by (rule mat_get_set_pair[OF Cons.prems(2,3) assms(4) c assms(6,7)])
  also have "\<dots> = mat_get res a b"
  proof -
    have "\<not> ((a = c \<and> b = r) \<or> (a = r \<and> b = c))"
      using Cons.prems(5,6) by (simp only: set_simps insert_iff) blast
    then show ?thesis
      by (simp only: if_False)
  qed
  finally show ?case .
qed

lemma lcas_cols_sym:
  assumes "lcas_cols t r cs res = Some res'"
    and "mat_cols res = n" and "length (mat_data res) = n * n"
    and "r < n" and "\<forall>c \<in> set cs. c < n"
    and "\<forall>a<n. \<forall>b<n. mat_get res a b = mat_get res b a"
  shows "\<forall>a<n. \<forall>b<n. mat_get res' a b = mat_get res' b a"
  using assms(1,2,3,5,6)
proof (induction cs arbitrary: res)
  case Nil
  then show ?case by simp
next
  case (Cons c cs)
  from Cons.prems(1) obtain lca where lca: "lowest_common_ancestor t r c = Some lca"
    by (cases "lowest_common_ancestor t r c") simp_all
  define m2 where "m2 = mat_set (mat_set res r c lca) c r lca"
  have rest: "lcas_cols t r cs m2 = Some res'"
    using Cons.prems(1) lca by (simp add: m2_def)
  have c: "c < n" using Cons.prems(4) by simp
  have s2: "mat_cols m2 = n" "length (mat_data m2) = n * n"
    using Cons.prems(2,3) by (simp_all add: m2_def mat_set_shape)
  have cs: "\<forall>c \<in> set cs. c < n" using Cons.prems(4) by simp
  have "\<forall>a<n. \<forall>b<n. mat_get m2 a b = mat_get m2 b a"
  proof (intro allI impI)
    fix x y assume xy: "x < n" "y < n"
    have e: "mat_get res x y = mat_get res y x"
      using Cons.prems(5) xy by blast
    have f1: "mat_get m2 x y = (if (x = c \<and> y = r) \<or> (x = r \<and> y = c) then lca else mat_get res x y)"
      unfolding m2_def by (rule mat_get_set_pair[OF Cons.prems(2,3) assms(4) c xy])
    have f2: "mat_get m2 y x = (if (y = c \<and> x = r) \<or> (y = r \<and> x = c) then lca else mat_get res y x)"
      unfolding m2_def by (rule mat_get_set_pair[OF Cons.prems(2,3) assms(4) c xy(2,1)])
    have "((x = c \<and> y = r) \<or> (x = r \<and> y = c)) = ((y = c \<and> x = r) \<or> (y = r \<and> x = c))"
      by blast
    then show "mat_get m2 x y = mat_get m2 y x"
      by (simp only: f1 f2 e)
  qed
  from Cons.IH[OF rest s2 cs this] show ?case .
qed

lemma lcas_row_props:
  assumes vl: "valid_links t" and vn: "valid_nodes t" and ve: "valid_edges t"
    and n: "n = node_count t" and r: "r < n"
    and s: "mat_rows res = n" "mat_cols res = n" "length (mat_data res) = n * n"
  shows "\<exists>res'. lcas_cols t r [r..<n] res = Some res' \<and>
         mat_rows res' = n \<and> mat_cols res' = n \<and> length (mat_data res') = n * n \<and>
         ((\<forall>a<n. \<forall>b<n. mat_get res a b = mat_get res b a) \<longrightarrow>
          (\<forall>a<n. \<forall>b<n. mat_get res' a b = mat_get res' b a)) \<and>
         (\<forall>d<n. mat_get res' d d = (if d = r then r else mat_get res d d))"
proof -
  have r': "r < node_count t" using r n by simp
  have cs: "\<forall>c \<in> set [r..<n]. c < node_count t" using n by simp
  from lcas_cols_returns[OF vl vn ve r' cs] obtain res' where
    res': "lcas_cols t r [r..<n] res = Some res'" by blast
  have cs': "\<forall>c \<in> set [r..<n]. c < n" by simp
  have shape: "mat_rows res' = n" "mat_cols res' = n" "length (mat_data res') = n * n"
    using lcas_cols_shape[OF res'] s by simp_all
  have sym: "(\<forall>a<n. \<forall>b<n. mat_get res a b = mat_get res b a) \<longrightarrow>
          (\<forall>a<n. \<forall>b<n. mat_get res' a b = mat_get res' b a)"
    using lcas_cols_sym[OF res' s(2,3) r cs'] by blast
  have split: "[r..<n] = r # [Suc r..<n]"
    using r by (simp add: upt_conv_Cons)
  define m2 where "m2 = mat_set (mat_set res r r r) r r r"
  have rest: "lcas_cols t r [Suc r..<n] m2 = Some res'"
    using res' unfolding split by (simp add: lowest_common_ancestor_same m2_def)
  have s2: "mat_cols m2 = n" "length (mat_data m2) = n * n"
    using s by (simp_all add: mat_set_shape m2_def)
  have cs2: "\<forall>c \<in> set [Suc r..<n]. c < n" by simp
  have "mat_get res' r r = mat_get m2 r r"
    by (rule lcas_cols_frame[OF rest s2 r cs2 r r]) simp_all
  also have "\<dots> = r"
    unfolding m2_def by (simp only: mat_get_set_pair[OF s(2,3) r r r r, of r] simp_thms if_True)
  finally have rr: "mat_get res' r r = r" .
  have "\<forall>d<n. mat_get res' d d = (if d = r then r else mat_get res d d)"
  proof (intro allI impI)
    fix d assume d: "d < n"
    show "mat_get res' d d = (if d = r then r else mat_get res d d)"
    proof (cases "d = r")
      case True
      with rr show ?thesis by simp
    next
      case False
      have "mat_get res' d d = mat_get res d d"
        by (rule lcas_cols_frame[OF res' s(2,3) r cs' d d]) (use False in simp_all)
      with False show ?thesis by simp
    qed
  qed
  with res' shape sym show ?thesis
    by blast
qed

lemma lcas_rows_props:
  assumes vl: "valid_links t" and vn: "valid_nodes t" and ve: "valid_edges t"
    and n: "n = node_count t" and rs: "\<forall>r \<in> set rs. r < n"
    and s: "mat_rows res = n" "mat_cols res = n" "length (mat_data res) = n * n"
  shows "\<exists>res'. lcas_rows t rs res = Some res' \<and>
         mat_rows res' = n \<and> mat_cols res' = n \<and> length (mat_data res') = n * n \<and>
         ((\<forall>a<n. \<forall>b<n. mat_get res a b = mat_get res b a) \<longrightarrow>
          (\<forall>a<n. \<forall>b<n. mat_get res' a b = mat_get res' b a)) \<and>
         (\<forall>d<n. mat_get res' d d = (if d \<in> set rs then d else mat_get res d d))"
  using rs s
proof (induction rs arbitrary: res)
  case Nil
  then show ?case by simp
next
  case (Cons r rs)
  have r: "r < n" using Cons.prems(1) by simp
  from lcas_row_props[OF vl vn ve n r Cons.prems(2-4)] obtain res1 where
    r1: "lcas_cols t r [r..<n] res = Some res1"
    "mat_rows res1 = n" "mat_cols res1 = n" "length (mat_data res1) = n * n"
    "(\<forall>a<n. \<forall>b<n. mat_get res a b = mat_get res b a) \<longrightarrow>
          (\<forall>a<n. \<forall>b<n. mat_get res1 a b = mat_get res1 b a)"
    "\<forall>d<n. mat_get res1 d d = (if d = r then r else mat_get res d d)"
    by blast
  have rs': "\<forall>r \<in> set rs. r < n" using Cons.prems(1) by simp
  from Cons.IH[OF rs' r1(2-4)] obtain res' where
    r2: "lcas_rows t rs res1 = Some res'"
    "mat_rows res' = n" "mat_cols res' = n" "length (mat_data res') = n * n"
    "(\<forall>a<n. \<forall>b<n. mat_get res1 a b = mat_get res1 b a) \<longrightarrow>
          (\<forall>a<n. \<forall>b<n. mat_get res' a b = mat_get res' b a)"
    "\<forall>d<n. mat_get res' d d = (if d \<in> set rs then d else mat_get res1 d d)"
    by blast
  have "lcas_rows t (r # rs) res = Some res'"
    using r1(1) r2(1) n by simp
  moreover have "(\<forall>a<n. \<forall>b<n. mat_get res a b = mat_get res b a) \<longrightarrow>
          (\<forall>a<n. \<forall>b<n. mat_get res' a b = mat_get res' b a)"
    using r1(5) r2(5) by blast
  moreover have "\<forall>d<n. mat_get res' d d = (if d \<in> set (r # rs) then d else mat_get res d d)"
    using r1(6) r2(6) by auto
  ultimately show ?case
    using r2(2-4) by blast
qed

section \<open>Walks around a subtree\<close>

lemma funpow_reach:
  assumes "(f ^^ a) x = y" and "(f ^^ b) y = z"
  shows "(f ^^ (b + a)) x = z"
  using assms by (simp add: funpow_add)

lemma subtree_walk:
  assumes vl: "valid_links t"
  shows "tree_behind k t x \<Longrightarrow> x < link_count t \<Longrightarrow>
         \<exists>m. ((\<lambda>y. outr t (nxt t y)) ^^ Suc m) x = outr t x"
proof (induction k arbitrary: x)
  case 0
  then show ?case by simp
next
  case (Suc k)
  note IH = Suc.IH and x = Suc.prems(2)
  let ?tau = "\<lambda>y. outr t (nxt t y)"
  from Suc.prems(1) obtain cs where r: "ring_rest t x = Some cs"
    and b: "\<forall>c \<in> set cs. tree_behind k t (outr t c)"
    by (auto split: option.splits)
  from ring_rest_SomeD[OF r] obtain n where n: "(nxt t ^^ Suc n) x = x"
    and cs: "cs = map (\<lambda>j. (nxt t ^^ Suc j) x) [0..<n]"
    by blast
  have P: "j \<le> n \<Longrightarrow> \<exists>m. (?tau ^^ m) x = (nxt t ^^ j) x" for j
  proof (induction j)
    case 0
    show ?case by (rule exI[of _ 0]) simp
  next
    case (Suc j)
    then obtain m where m: "(?tau ^^ m) x = (nxt t ^^ j) x"
      by auto
    define c where "c = (nxt t ^^ Suc j) x"
    have "j < n" using Suc.prems by simp
    then have "c \<in> set cs"
      unfolding cs c_def by (simp only: set_map set_upt) (rule imageI, simp)
    then have tb: "tree_behind k t (outr t c)"
      using b by blast
    have cl: "c < link_count t"
      unfolding c_def using nxt_funpow_valid[OF vl x] by blast
    have ol: "outr t c < link_count t"
      using valid_linkD(2)[OF vl cl] .
    from IH[OF tb ol] obtain m' where
      "(?tau ^^ Suc m') (outr t c) = outr t (outr t c)"
      by blast
    then have m': "(?tau ^^ Suc m') (outr t c) = c"
      using valid_linkD(6)[OF vl cl] by simp
    have "(?tau ^^ Suc m) x = outr t c"
      using m by (simp add: c_def)
    from funpow_reach[OF this m'] show ?case
      unfolding c_def by blast
  qed
  from P[of n] obtain m where "(?tau ^^ m) x = (nxt t ^^ n) x"
    by blast
  then have "(?tau ^^ Suc m) x = outr t ((nxt t ^^ Suc n) x)"
    by simp
  then show ?case
    unfolding n by blast
qed

lemma subtree_size_loop_returns:
  "((\<lambda>y. outr t (nxt t y)) ^^ m) cur = lnk \<Longrightarrow>
   \<exists>r. subtree_size_loop t lnk cur acc = Some r"
proof (induction m arbitrary: cur acc)
  case 0
  then show ?case
    by (subst subtree_size_loop.simps) simp
next
  case (Suc m)
  show ?case
  proof (cases "cur = lnk")
    case True
    then show ?thesis
      by (subst subtree_size_loop.simps) simp
  next
    case False
    from Suc.prems have "((\<lambda>y. outr t (nxt t y)) ^^ m) (outr t (nxt t cur)) = lnk"
      by (simp only: funpow_Suc_right o_apply)
    from Suc.IH[OF this] False show ?thesis
      by (subst subtree_size_loop.simps) simp
  qed
qed

lemma subtree_max_path_height_loop_returns:
  "((\<lambda>y. outr t (nxt t y)) ^^ m) cur = lnk \<Longrightarrow>
   \<exists>r. subtree_max_path_height_loop t dists lnk cur mx = Some r"
proof (induction m arbitrary: cur mx)
  case 0
  then show ?case
    by (subst subtree_max_path_height_loop.simps) simp
next
  case (Suc m)
  show ?case
  proof (cases "cur = lnk")
    case True
    then show ?thesis
      by (subst subtree_max_path_height_loop.simps) simp
  next
    case False
    from Suc.prems have "((\<lambda>y. outr t (nxt t y)) ^^ m) (outr t (nxt t cur)) = lnk"
      by (simp only: funpow_Suc_right o_apply)
    from Suc.IH[OF this] False show ?thesis
      by (subst subtree_max_path_height_loop.simps) simp
  qed
qed

lemma subtree_walk_back:
  assumes vl: "valid_links t" and l: "l < link_count t"
  shows "\<exists>m. ((\<lambda>y. outr t (nxt t y)) ^^ Suc m) (outr t l) = l"
proof -
  have ol: "outr t l < link_count t"
    using valid_linkD(2)[OF vl l] .
  have "tree_behind (link_count t) t (outr t l)"
    using valid_linkD(9)[OF vl ol] .
  from subtree_walk[OF vl this ol] show ?thesis
    using valid_linkD(6)[OF vl l] by simp
qed

section \<open>The Euler tour\<close>

lemma eulertour_loop_returns:
  "((\<lambda>y. nxt t (outr t y)) ^^ Suc m) lnk = start \<Longrightarrow>
   \<exists>r. eulertour_loop t start lnk acc = Some r"
proof (induction m arbitrary: lnk acc)
  case 0
  then show ?case
    by (subst eulertour_loop.simps) simp
next
  case (Suc m)
  show ?case
  proof (cases "nxt t (outr t lnk) = start")
    case True
    then show ?thesis
      by (subst eulertour_loop.simps) simp
  next
    case False
    from Suc.prems have "((\<lambda>y. nxt t (outr t y)) ^^ Suc m) (nxt t (outr t lnk)) = start"
      by (simp only: funpow_Suc_right[of "Suc m"] o_apply)
    from Suc.IH[OF this] False show ?thesis
      by (subst eulertour_loop.simps) simp
  qed
qed

lemma eulertour_conjugate:
  "outr t (((\<lambda>y. nxt t (outr t y)) ^^ m) p) = ((\<lambda>y. outr t (nxt t y)) ^^ m) (outr t p)"
  by (induction m) simp_all

lemma eulertour_links:
  assumes vl: "valid_links t" and p: "p < link_count t"
  shows "((\<lambda>y. nxt t (outr t y)) ^^ m) p < link_count t"
proof (induction m)
  case 0
  show ?case using p by simp
next
  case (Suc m)
  show ?case
    using valid_linkD(1)[OF vl valid_linkD(2)[OF vl Suc]] by simp
qed

lemma eulertour_closes:
  assumes vl: "valid_links t" and p: "p < link_count t"
  shows "\<exists>m. ((\<lambda>y. nxt t (outr t y)) ^^ Suc m) p = p"
proof -
  let ?tau = "\<lambda>y. outr t (nxt t y)"
  let ?rho = "\<lambda>y. nxt t (outr t y)"
  from subtree_walk_back[OF vl p] obtain a where a: "(?tau ^^ Suc a) (outr t p) = p"
    by blast
  from subtree_walk[OF vl valid_linkD(9)[OF vl p] p] obtain b where
    b: "(?tau ^^ Suc b) p = outr t p"
    by blast
  from funpow_reach[OF a b] have "(?tau ^^ Suc (b + Suc a)) (outr t p) = outr t p"
    by simp
  then have "outr t ((?rho ^^ Suc (b + Suc a)) p) = outr t p"
    by (simp only: eulertour_conjugate)
  then have "outr t (outr t ((?rho ^^ Suc (b + Suc a)) p)) = outr t (outr t p)"
    by simp
  then have "(?rho ^^ Suc (b + Suc a)) p = p"
    by (simp only: valid_linkD(6)[OF vl eulertour_links[OF vl p]] valid_linkD(6)[OF vl p])
  then show ?thesis
    by blast
qed

lemma eulertour_returns:
  assumes vl: "valid_links t" and vn: "valid_nodes t" and n: "n < node_count t"
  shows "\<exists>tour. eulertour t n = Some tour"
  unfolding eulertour_def
  using eulertour_closes[OF vl valid_nodeD(1)[OF vn n]] eulertour_loop_returns
  by blast

section \<open>Heights of subtrees\<close>

lemma height_loop_returns:
  assumes "\<forall>c \<in> set cs. \<forall>res. \<exists>r. f c res = Some r"
  shows "\<exists>r. height_loop f cs mx res = Some r"
  using assms
proof (induction cs arbitrary: mx res)
  case Nil
  show ?case by simp
next
  case (Cons c cs)
  from Cons.prems obtain h res' where "f c res = Some (h, res')"
    by (metis list.set_intros(1) surj_pair)
  moreover have "\<exists>r. height_loop f cs (max mx (1 + h)) res' = Some r"
    using Cons.IH Cons.prems by simp
  ultimately show ?case
    by simp
qed

lemma rec_subtree_height_returns:
  "tree_behind k t y \<Longrightarrow> \<exists>r. rec_subtree_height k t y result = Some r"
proof (induction k arbitrary: y result)
  case 0
  then show ?case by simp
next
  case (Suc k)
  from Suc.prems obtain cs where r: "ring_rest t y = Some cs"
    and b: "\<forall>c \<in> set cs. tree_behind k t (outr t c)"
    by (auto split: option.splits)
  have "\<forall>c \<in> set cs. \<forall>res. \<exists>r. rec_subtree_height k t (outr t c) res = Some r"
    using Suc.IH b by blast
  from height_loop_returns[of cs "\<lambda>cl. rec_subtree_height k t (outr t cl)", OF this]
  obtain h res' where
    "height_loop (\<lambda>cl. rec_subtree_height k t (outr t cl)) cs 0 result = Some (h, res')"
    by (metis surj_pair)
  then show ?case
    using r by simp
qed

lemma subtree_max_path_heights_returns:
  assumes vl: "valid_links t" and vn: "valid_nodes t" and b: "belongs_to_node t r"
  shows "\<exists>v. subtree_max_path_heights t r = Some (Inr v)"
proof -
  define n where "n = ref_index r"
  have n: "n < node_count t"
    using b by (simp add: belongs_to_node_def n_def)
  let ?p = "primary_link t n"
  from ring_rest_primary[OF vl vn n] obtain cs where r: "ring_rest t ?p = Some cs"
    by blast
  from ring_links_of_node(1)[OF vl vn n r] have "\<forall>c \<in> set (?p # cs). c < link_count t"
    by blast
  then have "\<forall>c \<in> set (?p # cs). tree_behind (link_count t) t (outr t c)"
    using valid_linkD(2,9)[OF vl] by blast
  then have "\<forall>c \<in> set (?p # cs). \<forall>res. \<exists>r.
      rec_subtree_height (link_count t) t (outr t c) res = Some r"
    using rec_subtree_height_returns by blast
  from height_loop_returns[of "?p # cs" "\<lambda>cl. rec_subtree_height (link_count t) t (outr t cl)",
      OF this]
  obtain h res' where
    "height_loop (\<lambda>cl. rec_subtree_height (link_count t) t (outr t cl)) (?p # cs) 0
       (replicate (node_count t) 0) = Some (h, res')"
    by (metis surj_pair)
  then show ?thesis
    using r b unfolding n_def
    by (simp add: subtree_max_path_heights_def del: height_loop.simps)
qed

section \<open>Subtree queries return\<close>

lemma subtree_size_returns:
  assumes vl: "valid_links t" and b: "belongs_to_link t r"
  shows "\<exists>s. subtree_size t r = Some (Inr s)"
proof -
  have l: "ref_index r < link_count t"
    using b by (simp add: belongs_to_link_def)
  from subtree_walk_back[OF vl l] obtain m where
    "((\<lambda>y. outr t (nxt t y)) ^^ Suc m) (outr t (ref_index r)) = ref_index r"
    by blast
  from subtree_size_loop_returns[OF this] obtain s where
    "subtree_size_loop t (ref_index r) (outr t (ref_index r)) {} = Some s"
    by blast
  then show ?thesis
    using b by (simp add: subtree_size_def)
qed

lemma subtree_sizes_returns:
  assumes vl: "valid_links t" and vn: "valid_nodes t" and b: "belongs_to_node t r"
  shows "\<exists>v. subtree_sizes t r = Some (Inr v)"
proof -
  have n: "ref_index r < node_count t"
    using b by (simp add: belongs_to_node_def)
  from eulertour_returns[OF vl vn n] obtain tour where "eulertour t (ref_index r) = Some tour"
    by blast
  then show ?thesis
    using b by (simp add: subtree_sizes_def)
qed

lemma subtree_max_path_height_returns:
  assumes vl: "valid_links t" and b: "belongs_to_link t r"
    and npl: "\<forall>n < node_count t. \<exists>dists.
      npl t \<lparr>ref_owner = tree_id t, ref_index = n\<rparr> = Some (Inr dists)"
  shows "\<exists>h. subtree_max_path_height npl t r = Some (Inr h)"
proof -
  have l: "ref_index r < link_count t"
    using b by (simp add: belongs_to_link_def)
  have "nod t (outr t (ref_index r)) < node_count t"
    using valid_linkD(3)[OF vl valid_linkD(2)[OF vl l]] .
  with npl obtain dists where
    d: "npl t \<lparr>ref_owner = tree_id t, ref_index = nod t (outr t (ref_index r))\<rparr> =
          Some (Inr dists)"
    by blast
  from subtree_walk_back[OF vl l] obtain m where
    "((\<lambda>y. outr t (nxt t y)) ^^ Suc m) (outr t (ref_index r)) = ref_index r"
    by blast
  from subtree_max_path_height_loop_returns[OF this] obtain h where
    "subtree_max_path_height_loop t dists (ref_index r) (outr t (ref_index r)) 0 = Some h"
    by blast
  then show ?thesis
    using b d by (simp add: subtree_max_path_height_def)
qed

section \<open>Claims\<close>

text \<open>
  C10. \<open>sign_matrix\<close> applied to an empty tree returns the empty matrix with no rows and no
  columns and does not fail, whatever the flag \<open>compressed\<close>: the checks for a rooted and
  bifurcating tree are only reached for a tree that is not empty.
\<close>

theorem sign_matrix_empty_tree:
  "tree_empty t \<Longrightarrow>
     sign_matrix t compressed = Some (Inr \<lparr>mat_rows = 0, mat_cols = 0, mat_data = []\<rparr>)"
  by (simp add: sign_matrix_def mat_empty_def)

theorem sign_matrix_empty_tree_witness:
  "tree_empty empty_tree \<and>
   sign_matrix empty_tree True = Some (Inr \<lparr>mat_rows = 0, mat_cols = 0, mat_data = []\<rparr>)"
proof -
  have e: "tree_empty empty_tree"
    by (simp add: tree_empty_def empty_tree_def)
  show ?thesis
    using e sign_matrix_empty_tree [OF e, of True] by simp
qed

text \<open>
  C5, as stated, fails: the topology \<open>((B,(D,E)C)A,F,(H,I)G)R\<close> has ten nodes and a root of
  degree 3, so that \<open>sign_matrix\<close> throws for it, being not rooted, and returns no matrix.
\<close>

theorem sign_matrix_reference_tree_fails:
  "node_count reference_tree = 10 \<and>
   degree reference_tree (root_node reference_tree) = Some 3 \<and>
   sign_matrix reference_tree False = Some (Inl InvalidTopology) \<and>
   sign_matrix reference_tree True = Some (Inl InvalidTopology)"
  by (simp add: sign_matrix_def not_empty_reference_tree is_rooted_reference_tree)
     (simp add: link_eval loop_eval reference_tree_def)

text \<open>
  C5, amended: the sign matrix of the rooted bifurcating tree with nine nodes and the
  topology \<open>((B,(D,E)C)A,(H,I)G)R\<close> is the matrix of nine rows and columns of the test of the
  tree functions, and its compressed form is the matrix there of four rows (the inner nodes
  R, G, A, C) and five columns (the leaves I, H, E, D, B).
\<close>

theorem sign_matrix_rooted_tree:
  "sign_matrix rooted_tree False =
     Some (Inr \<lparr>mat_rows = 9, mat_cols = 9, mat_data =
       [0, - 1, - 1, - 1, 1, 1, 1, 1, 1,
        0, 0, - 1, 1, 0, 0, 0, 0, 0,
        0, 0, 0, 0, 0, 0, 0, 0, 0,
        0, 0, 0, 0, 0, 0, 0, 0, 0,
        0, 0, 0, 0, 0, - 1, - 1, - 1, 1,
        0, 0, 0, 0, 0, 0, - 1, 1, 0,
        0, 0, 0, 0, 0, 0, 0, 0, 0,
        0, 0, 0, 0, 0, 0, 0, 0, 0,
        0, 0, 0, 0, 0, 0, 0, 0, 0]\<rparr>) \<and>
   sign_matrix rooted_tree True =
     Some (Inr \<lparr>mat_rows = 4, mat_cols = 5, mat_data =
       [- 1, - 1, 1, 1, 1,
        - 1, 1, 0, 0, 0,
        0, 0, - 1, - 1, 1,
        0, 0, - 1, 1, 0]\<rparr>)"
  by (simp add: sign_matrix_def not_empty_rooted_tree is_rooted_rooted_tree
      is_bifurcating_rooted_tree sign_matrix_rows_rooted_tree)
     (simp add: sign_matrix_compress_def inner_node_indices_def leaf_node_indices_def
      link_eval rooted_tree_def upt_conv_Cons mat_init_def mat_set_def mat_get_def)

text \<open>
  C4, as stated, fails: the reference topology has ten nodes, and \<open>subtree_size\<close> at the
  link of index 6 does not return this number.
\<close>

theorem subtree_size_link_6_not_node_count:
  "subtree_size reference_tree \<lparr>ref_owner = tree_id reference_tree, ref_index = 6\<rparr>
     \<noteq> Some (Inr (node_count reference_tree))"
  by (simp add: subtree_size_def belongs_to_link_def subtree_size_loop.simps link_eval
      reference_tree_def card_insert_if)

text \<open>
  C4, amended: for the reference topology \<open>((B,(D,E)C)A,F,(H,I)G)R;\<close> of ten nodes,
  \<open>subtree_size\<close> returns 5 at both links of the edge between the root and the node A (the
  link of index 0 at the root, whose subtree is A, B, C, D, E, and the primary link of A, of
  index 9, whose subtree is R, F, G, H, I), and it returns 9 at the link of index 6, the
  primary link of the leaf I: the number of nodes of the tree without that leaf.
\<close>

theorem subtree_size_reference_tree:
  "node_count reference_tree = 10 \<and>
   outr reference_tree 0 = primary_link reference_tree 5 \<and>
   subtree_size reference_tree \<lparr>ref_owner = tree_id reference_tree, ref_index = 0\<rparr>
     = Some (Inr 5) \<and>
   subtree_size reference_tree \<lparr>ref_owner = tree_id reference_tree, ref_index = 9\<rparr>
     = Some (Inr 5) \<and>
   primary_link reference_tree 2 = 6 \<and> is_leaf reference_tree 2 \<and>
   subtree_size reference_tree \<lparr>ref_owner = tree_id reference_tree, ref_index = 6\<rparr>
     = Some (Inr 9)"
  by (simp add: subtree_size_def belongs_to_link_def subtree_size_loop.simps link_eval
      reference_tree_def card_insert_if)



text \<open>
  C3. For every sample whose placements are on edges of its own tree, \<open>load\<close> of what
  \<open>save\<close> has written returns a sample with the same total number of placements, the
  same number of names for each Pquery, and, for each placement in order, the same four
  numbers \<open>likelihood\<close>, \<open>like_weight_ratio\<close>, \<open>proximal_length\<close> and
  \<open>pendant_length\<close>, bit for bit. The Newick writer and reader are parameters: what is
  asked of them is that the reader accepts the string that the writer gives for the tree of
  the sample and returns a tree with as many edges.
\<close>

theorem load_save_round_trip:
  assumes "read_tree (write_tree (sample_tree smp)) = Inr t'"
    and "edge_count t' = edge_count (sample_tree smp)"
    and "placements_on_tree smp"
    and "sizes_fit write_tree smp"
  shows "\<exists>smp'. load read_tree (save write_tree smp) = Inr smp' \<and>
           total_placement_count smp' = total_placement_count smp \<and>
           map (\<lambda>pqry. length (pnames pqry)) (pqueries smp')
             = map (\<lambda>pqry. length (pnames pqry)) (pqueries smp) \<and>
           map (\<lambda>pqry. map placement_numbers (placements pqry)) (pqueries smp')
             = map (\<lambda>pqry. map placement_numbers (placements pqry)) (pqueries smp)"
proof -
  let ?smp' = "\<lparr>sample_tree = t', pqueries = map (reloaded_pquery t') (pqueries smp)\<rparr>"
  have "load read_tree (save write_tree smp) = Inr ?smp'"
    by (rule load_save[where read_tree = read_tree and write_tree = write_tree, OF assms])
  moreover have "total_placement_count ?smp' = total_placement_count smp"
    by (simp add: total_placement_count_def reloaded_pquery_def comp_def)
  moreover have "map (\<lambda>pqry. length (pnames pqry)) (pqueries ?smp')
             = map (\<lambda>pqry. length (pnames pqry)) (pqueries smp)"
    by (simp add: reloaded_pquery_def comp_def)
  moreover have "map (\<lambda>pqry. map placement_numbers (placements pqry)) (pqueries ?smp')
             = map (\<lambda>pqry. map placement_numbers (placements pqry)) (pqueries smp)"
    by (simp add: reloaded_pquery_def comp_def placement_numbers_reloaded)
  ultimately show ?thesis
    by blast
qed

theorem load_save_round_trip_witness:
  "\<exists>smp'. load example_reader (save example_writer example_sample) = Inr smp' \<and>
      total_placement_count smp' = 3 \<and>
      map (\<lambda>pqry. length (pnames pqry)) (pqueries smp') = [1, 2] \<and>
      map (\<lambda>pqry. map placement_numbers (placements pqry)) (pqueries smp') =
        [[(0xBFF8000000000000, 0x3FE0000000000000, 0x3FD0000000000000, 0x4000000000000000),
          (0xBFF8000000000000, 0x3FD0000000000000, 0x3FE0000000000000, 0x3FF0000000000000)],
         [(0x3FF0000000000000, 0x3FF0000000000000, 0, 0x3FE0000000000000)]]"
proof -
  from load_save_round_trip [where read_tree = example_reader and write_tree = example_writer,
      OF example_sample_ok]
  obtain smp' where a: "load example_reader (save example_writer example_sample) = Inr smp'"
    and b: "total_placement_count smp' = total_placement_count example_sample"
    and c: "map (\<lambda>pqry. length (pnames pqry)) (pqueries smp')
             = map (\<lambda>pqry. length (pnames pqry)) (pqueries example_sample)"
    and d: "map (\<lambda>pqry. map placement_numbers (placements pqry)) (pqueries smp')
             = map (\<lambda>pqry. map placement_numbers (placements pqry)) (pqueries example_sample)"
    by blast
  have b': "total_placement_count example_sample = 3"
    by (simp add: total_placement_count_def example_sample_def)
  have c': "map (\<lambda>pqry. length (pnames pqry)) (pqueries example_sample) = [1, 2]"
    by (simp add: example_sample_def)
  have d': "map (\<lambda>pqry. map placement_numbers (placements pqry)) (pqueries example_sample) =
        [[(0xBFF8000000000000, 0x3FE0000000000000, 0x3FD0000000000000, 0x4000000000000000),
          (0xBFF8000000000000, 0x3FD0000000000000, 0x3FE0000000000000, 0x3FF0000000000000)],
         [(0x3FF0000000000000, 0x3FF0000000000000, 0, 0x3FE0000000000000)]]"
    by (simp add: example_sample_def placement_numbers_def)
  show ?thesis
  proof (intro exI conjI)
    show "load example_reader (save example_writer example_sample) = Inr smp'"
      by (rule a)
    show "total_placement_count smp' = 3"
      using b b' by simp
    show "map (\<lambda>pqry. length (pnames pqry)) (pqueries smp') = [1, 2]"
      using c c' by simp
    show "map (\<lambda>pqry. map placement_numbers (placements pqry)) (pqueries smp') =
        [[(0xBFF8000000000000, 0x3FE0000000000000, 0x3FD0000000000000, 0x4000000000000000),
          (0xBFF8000000000000, 0x3FD0000000000000, 0x3FE0000000000000, 0x3FF0000000000000)],
         [(0x3FF0000000000000, 0x3FF0000000000000, 0, 0x3FE0000000000000)]]"
      using d d' by simp
  qed
qed

text \<open>
  C7. \<open>load\<close> does not fail for every file whose first 8 bytes differ from the magic tag:
  the comparison by \<open>strncmp\<close> ends at the first zero byte of the tag, the seventh byte,
  and never looks at the eighth. The file below has the tag \<open>BPLACE\<close>, a zero byte and
  the byte 1; it is read as a sample. (A difference within the first seven bytes gives
  \<open>FormatError\<close>, a different version byte \<open>VersionError\<close> and bytes after the
  declared structure \<open>TruncatedInputError\<close>: \<open>load_format_error\<close>,
  \<open>load_version_error\<close>, \<open>load_trailing\<close>.)
\<close>

theorem load_wrong_magic_file:
  "take 8 wrong_magic_file \<noteq> magic \<and>
   load example_reader wrong_magic_file = Inr \<lparr>sample_tree = cherry_tree, pqueries = []\<rparr>"
  by (simp add: wrong_magic_file_def magic_def)
     (simp add: load_def get_raw_string_def strncmp_wrong_magic get_uchar_def version_def
      get_string_def get_int_def example_reader_def example_newick_def finished_def)

text \<open>
  C9. For every valid topology, the sum of the degrees of all nodes is twice the number of
  edges. For every node, \<open>degree\<close> returns a number \<open>d\<close> above 0 such that following
  \<open>next\<close> from the primary link of the node comes back to this link after exactly \<open>d\<close>
  steps and not before; a leaf has the degree 1, and the \<open>next\<close> of its link is the link
  itself.
\<close>

theorem degree_sum:
  assumes "valid_topology t"
  shows "sum_degrees t [0..<node_count t] = Some (2 * edge_count t) \<and>
         (\<forall>n < node_count t. \<exists>d. degree t n = Some d \<and> 0 < d \<and>
            (nxt t ^^ d) (primary_link t n) = primary_link t n \<and>
            (\<forall>j. 0 < j \<and> j < d \<longrightarrow> (nxt t ^^ j) (primary_link t n) \<noteq> primary_link t n) \<and>
            (is_leaf t n \<longrightarrow> d = 1 \<and> nxt t (primary_link t n) = primary_link t n))"
proof (cases "tree_empty t")
  case True
  then show ?thesis
    by (simp add: tree_empty_def node_count_def edge_count_def)
next
  case False
  with assms have vl: "valid_links t" and vn: "valid_nodes t" and ve: "valid_edges t"
    by (simp_all add: valid_topology_def)
  have "\<exists>d. degree t n = Some d \<and> 0 < d \<and>
            (nxt t ^^ d) (primary_link t n) = primary_link t n \<and>
            (\<forall>j. 0 < j \<and> j < d \<longrightarrow> (nxt t ^^ j) (primary_link t n) \<noteq> primary_link t n) \<and>
            (is_leaf t n \<longrightarrow> d = 1 \<and> nxt t (primary_link t n) = primary_link t n)"
    if n: "n < node_count t" for n
  proof -
    obtain d where d: "degree t n = Some d"
      using degree_card[OF vl vn n] by blast
    have l: "is_leaf t n \<longrightarrow> d = 1 \<and> nxt t (primary_link t n) = primary_link t n"
      using degree_leaf[of t n] d by (auto simp: is_leaf_def is_leaf_link_def)
    show ?thesis
      using d degree_SomeD[OF d] l by blast
  qed
  then show ?thesis
    using sum_degrees_valid[OF vl vn ve] by blast
qed

theorem degree_sum_witness:
  "valid_topology reference_tree \<and>
   sum_degrees reference_tree [0..<node_count reference_tree] = Some 18 \<and>
   edge_count reference_tree = 9 \<and>
   degree reference_tree 0 = Some 3 \<and>
   is_leaf reference_tree 2 \<and> degree reference_tree 2 = Some 1"
proof -
  have e: "edge_count reference_tree = 9"
    by (simp add: edge_count_def reference_tree_def)
  have d: "degree reference_tree 0 = Some 3 \<and> is_leaf reference_tree 2 \<and>
    degree reference_tree 2 = Some 1"
    by code_simp
  show ?thesis
    using degree_sum [OF valid_reference_tree] e d valid_reference_tree by simp
qed

text \<open>
  C2. \<open>lowest_common_ancestor\<close> of a node and itself returns this node, and for every
  valid topology \<open>lowest_common_ancestors\<close> returns a square matrix over the node indices
  that is symmetric and has the index \<open>d\<close> at the diagonal entry \<open>(d, d)\<close>.
\<close>

theorem lowest_common_ancestors_symmetric:
  assumes "valid_topology t"
  shows "lowest_common_ancestor t a a = Some a \<and>
         (\<exists>m. lowest_common_ancestors t = Some m \<and>
            mat_rows m = node_count t \<and> mat_cols m = node_count t \<and>
            (\<forall>r < node_count t. \<forall>c < node_count t. mat_get m r c = mat_get m c r) \<and>
            (\<forall>d < node_count t. mat_get m d d = d))"
proof (cases "tree_empty t")
  case True
  then show ?thesis
    by (simp add: lowest_common_ancestor_same lowest_common_ancestors_def tree_empty_def
        node_count_def mat_init_def)
next
  case False
  with assms have vl: "valid_links t" and vn: "valid_nodes t" and ve: "valid_edges t"
    by (simp_all add: valid_topology_def)
  let ?n = "node_count t"
  let ?z = "mat_init ?n ?n (0::nat)"
  have s: "mat_rows ?z = ?n" "mat_cols ?z = ?n" "length (mat_data ?z) = ?n * ?n"
    by (simp_all add: mat_init_def)
  have z: "\<forall>a < ?n. \<forall>b < ?n. mat_get ?z a b = mat_get ?z b a"
    by (simp add: mat_init_def mat_get_def index_bound)
  have rs: "\<forall>r \<in> set [0..< ?n]. r < ?n" by simp
  from lcas_rows_props[OF vl vn ve refl rs s] z obtain m where
    "lcas_rows t [0..< ?n] ?z = Some m" "mat_rows m = ?n" "mat_cols m = ?n"
    "\<forall>a < ?n. \<forall>b < ?n. mat_get m a b = mat_get m b a"
    "\<forall>d < ?n. mat_get m d d = (if d \<in> set [0..< ?n] then d else mat_get ?z d d)"
    by blast
  then show ?thesis
    by (simp add: lowest_common_ancestor_same lowest_common_ancestors_def)
qed

theorem lowest_common_ancestors_symmetric_witness:
  "valid_topology reference_tree \<and>
   lowest_common_ancestor reference_tree 5 5 = Some 5 \<and>
   lowest_common_ancestors reference_tree =
     Some \<lparr>mat_rows = 10, mat_cols = 10, mat_data =
       [0, 0, 0, 0, 0, 0, 0, 0, 0, 0,
        0, 1, 1, 1, 0, 0, 0, 0, 0, 0,
        0, 1, 2, 1, 0, 0, 0, 0, 0, 0,
        0, 1, 1, 3, 0, 0, 0, 0, 0, 0,
        0, 0, 0, 0, 4, 0, 0, 0, 0, 0,
        0, 0, 0, 0, 0, 5, 5, 5, 5, 5,
        0, 0, 0, 0, 0, 5, 6, 6, 6, 5,
        0, 0, 0, 0, 0, 5, 6, 7, 6, 5,
        0, 0, 0, 0, 0, 5, 6, 6, 8, 5,
        0, 0, 0, 0, 0, 5, 5, 5, 5, 9]\<rparr>"
proof -
  have m: "lowest_common_ancestors reference_tree =
     Some \<lparr>mat_rows = 10, mat_cols = 10, mat_data =
       [0, 0, 0, 0, 0, 0, 0, 0, 0, 0,
        0, 1, 1, 1, 0, 0, 0, 0, 0, 0,
        0, 1, 2, 1, 0, 0, 0, 0, 0, 0,
        0, 1, 1, 3, 0, 0, 0, 0, 0, 0,
        0, 0, 0, 0, 4, 0, 0, 0, 0, 0,
        0, 0, 0, 0, 0, 5, 5, 5, 5, 5,
        0, 0, 0, 0, 0, 5, 6, 6, 6, 5,
        0, 0, 0, 0, 0, 5, 6, 7, 6, 5,
        0, 0, 0, 0, 0, 5, 6, 6, 8, 5,
        0, 0, 0, 0, 0, 5, 5, 5, 5, 9]\<rparr>"
    by code_simp
  show ?thesis
    using lowest_common_ancestors_symmetric [OF valid_reference_tree, of 5] m
      valid_reference_tree
    by simp
qed

text \<open>
  C8. For every valid topology and every link and node reference, each of
  \<open>subtree_size\<close>, \<open>subtree_sizes\<close>, \<open>subtree_max_path_height\<close> and
  \<open>subtree_max_path_heights\<close> throws \<open>InvalidTopology\<close> exactly when the referenced link
  or node does not belong to the tree, and returns a value when it does.
  \<open>node_path_length_vector\<close>, which \<open>subtree_max_path_height\<close> calls, is taken to return
  a vector for every node of the tree.
\<close>

theorem subtree_queries_belongs_to:
  assumes "valid_topology t"
    and "\<forall>n < node_count t. \<exists>dists.
      npl t \<lparr>ref_owner = tree_id t, ref_index = n\<rparr> = Some (Inr dists)"
  shows "(subtree_size t l = Some (Inl InvalidTopology) \<longleftrightarrow> \<not> belongs_to_link t l) \<and>
         (belongs_to_link t l \<longrightarrow> (\<exists>s. subtree_size t l = Some (Inr s))) \<and>
         (subtree_sizes t n = Some (Inl InvalidTopology) \<longleftrightarrow> \<not> belongs_to_node t n) \<and>
         (belongs_to_node t n \<longrightarrow> (\<exists>v. subtree_sizes t n = Some (Inr v))) \<and>
         (subtree_max_path_height npl t l = Some (Inl InvalidTopology)
            \<longleftrightarrow> \<not> belongs_to_link t l) \<and>
         (belongs_to_link t l \<longrightarrow> (\<exists>h. subtree_max_path_height npl t l = Some (Inr h))) \<and>
         (subtree_max_path_heights t n = Some (Inl InvalidTopology)
            \<longleftrightarrow> \<not> belongs_to_node t n) \<and>
         (belongs_to_node t n \<longrightarrow> (\<exists>v. subtree_max_path_heights t n = Some (Inr v)))"
proof (cases "tree_empty t")
  case True
  then have "\<not> belongs_to_link t l" and "\<not> belongs_to_node t n"
    by (simp_all add: tree_empty_def belongs_to_link_def belongs_to_node_def link_count_def
        node_count_def)
  then show ?thesis
    by (simp add: subtree_size_def subtree_sizes_def subtree_max_path_height_def
        subtree_max_path_heights_def)
next
  case False
  with assms have vl: "valid_links t" and vn: "valid_nodes t"
    by (simp_all add: valid_topology_def)
  have a: "\<not> belongs_to_link t l \<Longrightarrow> subtree_size t l = Some (Inl InvalidTopology)"
    by (simp add: subtree_size_def)
  have b: "\<not> belongs_to_node t n \<Longrightarrow> subtree_sizes t n = Some (Inl InvalidTopology)"
    by (simp add: subtree_sizes_def)
  have c: "\<not> belongs_to_link t l \<Longrightarrow>
      subtree_max_path_height npl t l = Some (Inl InvalidTopology)"
    by (simp add: subtree_max_path_height_def)
  have d: "\<not> belongs_to_node t n \<Longrightarrow>
      subtree_max_path_heights t n = Some (Inl InvalidTopology)"
    by (simp add: subtree_max_path_heights_def)
  have a': "belongs_to_link t l \<Longrightarrow> \<exists>s. subtree_size t l = Some (Inr s)"
    using subtree_size_returns[OF vl] .
  have b': "belongs_to_node t n \<Longrightarrow> \<exists>v. subtree_sizes t n = Some (Inr v)"
    using subtree_sizes_returns[OF vl vn] .
  have c': "belongs_to_link t l \<Longrightarrow> \<exists>h. subtree_max_path_height npl t l = Some (Inr h)"
    using subtree_max_path_height_returns[where npl = npl, OF vl _ assms(2)] .
  have d': "belongs_to_node t n \<Longrightarrow> \<exists>v. subtree_max_path_heights t n = Some (Inr v)"
    using subtree_max_path_heights_returns[OF vl vn] .
  have 1: "subtree_size t l = Some (Inl InvalidTopology) \<longleftrightarrow> \<not> belongs_to_link t l"
    using a a' by fastforce
  have 2: "subtree_sizes t n = Some (Inl InvalidTopology) \<longleftrightarrow> \<not> belongs_to_node t n"
    using b b' by fastforce
  have 3: "subtree_max_path_height npl t l = Some (Inl InvalidTopology)
      \<longleftrightarrow> \<not> belongs_to_link t l"
    using c c' by fastforce
  have 4: "subtree_max_path_heights t n = Some (Inl InvalidTopology)
      \<longleftrightarrow> \<not> belongs_to_node t n"
    using d d' by fastforce
  show ?thesis
    using 1 2 3 4 a' b' c' d' by blast
qed

theorem subtree_queries_belongs_to_witness:
  "valid_topology reference_tree \<and>
   belongs_to_link reference_tree \<lparr>ref_owner = 1, ref_index = 0\<rparr> \<and>
   belongs_to_node reference_tree \<lparr>ref_owner = 1, ref_index = 0\<rparr> \<and>
   subtree_size reference_tree \<lparr>ref_owner = 1, ref_index = 0\<rparr> = Some (Inr 5) \<and>
   subtree_sizes reference_tree \<lparr>ref_owner = 1, ref_index = 0\<rparr> =
     Some (Inr [9, 2, 0, 0, 0, 4, 2, 0, 0, 0]) \<and>
   subtree_max_path_height reference_node_path_length_vector reference_tree
     \<lparr>ref_owner = 1, ref_index = 0\<rparr> = Some (Inr 2) \<and>
   subtree_max_path_heights reference_tree \<lparr>ref_owner = 1, ref_index = 0\<rparr> =
     Some (Inr [3, 1, 0, 0, 0, 2, 1, 0, 0, 0]) \<and>
   \<not> belongs_to_link reference_tree \<lparr>ref_owner = 2, ref_index = 0\<rparr> \<and>
   \<not> belongs_to_node reference_tree \<lparr>ref_owner = 1, ref_index = 10\<rparr> \<and>
   subtree_size reference_tree \<lparr>ref_owner = 2, ref_index = 0\<rparr> = Some (Inl InvalidTopology) \<and>
   subtree_sizes reference_tree \<lparr>ref_owner = 1, ref_index = 10\<rparr> =
     Some (Inl InvalidTopology) \<and>
   subtree_max_path_height reference_node_path_length_vector reference_tree
     \<lparr>ref_owner = 2, ref_index = 0\<rparr> = Some (Inl InvalidTopology) \<and>
   subtree_max_path_heights reference_tree \<lparr>ref_owner = 1, ref_index = 10\<rparr> =
     Some (Inl InvalidTopology)"
proof -
  have h: "\<forall>n < node_count reference_tree. \<exists>dists.
      reference_node_path_length_vector reference_tree
        \<lparr>ref_owner = tree_id reference_tree, ref_index = n\<rparr> = Some (Inr dists)"
    by (simp add: reference_node_path_length_vector_def)
  have b: "belongs_to_link reference_tree \<lparr>ref_owner = 1, ref_index = 0\<rparr>"
    "belongs_to_node reference_tree \<lparr>ref_owner = 1, ref_index = 0\<rparr>"
    "\<not> belongs_to_link reference_tree \<lparr>ref_owner = 2, ref_index = 0\<rparr>"
    "\<not> belongs_to_node reference_tree \<lparr>ref_owner = 1, ref_index = 10\<rparr>"
    by code_simp+
  have v1: "subtree_size reference_tree \<lparr>ref_owner = 1, ref_index = 0\<rparr> = Some (Inr 5)"
    by code_simp
  have v2: "subtree_sizes reference_tree \<lparr>ref_owner = 1, ref_index = 0\<rparr> =
     Some (Inr [9, 2, 0, 0, 0, 4, 2, 0, 0, 0])"
    by code_simp
  have v3: "subtree_max_path_height reference_node_path_length_vector reference_tree
     \<lparr>ref_owner = 1, ref_index = 0\<rparr> = Some (Inr 2)"
    by code_simp
  have v4: "subtree_max_path_heights reference_tree \<lparr>ref_owner = 1, ref_index = 0\<rparr> =
     Some (Inr [3, 1, 0, 0, 0, 2, 1, 0, 0, 0])"
    by code_simp
  show ?thesis
    using subtree_queries_belongs_to [where npl = reference_node_path_length_vector
          and l = "\<lparr>ref_owner = 2, ref_index = 0\<rparr>"
          and n = "\<lparr>ref_owner = 1, ref_index = 10\<rparr>", OF valid_reference_tree h]
      subtree_queries_belongs_to [where npl = reference_node_path_length_vector
          and l = "\<lparr>ref_owner = 1, ref_index = 0\<rparr>"
          and n = "\<lparr>ref_owner = 1, ref_index = 0\<rparr>", OF valid_reference_tree h]
      valid_reference_tree b v1 v2 v3 v4
    by simp
qed

end
